theory Spec2Isabelle
  imports Main "HOL-Library.Sublist" "HOL-Library.AList" "HOL-Library.List_Lexorder" "HOL-Library.Char_ord"
begin

section \<open>genpkg: data model\<close>

text \<open>
  A shallow embedding of the build/install/remove engine of genpkg.  The main source is
  \<^verbatim>\<open>genpkg1.0.py\<close>; the functions of the older \<^verbatim>\<open>genpkg.py\<close> that are modelled
  carry the suffix \<open>_v09\<close>.  Python exceptions are values (\<open>Raise e\<close>), the mutable
  objects of the interpreter (the \<open>DB.data\<close> dictionary, the \<open>visited\<close> set that the
  recursive calls share by reference) and the files the program itself owns (manifest, logs,
  the file tree) are fields of an explicit state.  Everything the program delegates to
  other software (shell commands, downloads, the tar and JSON codecs, path resolution) is a
  field of the record \<open>env\<close>: the theorems hold for every behaviour of these collaborators.
\<close>

datatype error =
    FileNotFoundError string
  | CalledProcessError int string
  | RuntimeError string
  | ValueError string
  | OSError string

datatype 'a result = Return 'a | Raise error

text \<open>The class \<open>Recipe\<close>, after the two vocabularies of keys have been merged.\<close>

record recipe =
  name :: string
  version :: string
  url :: string
  deps :: "string list"
  commands :: "string list"
  patches :: "string list"
  pre_install :: "string list"
  post_install :: "string list"
  pre_remove :: "string list"
  post_remove :: "string list"
  path :: string

text \<open>
  One entry of \<open>installed.json\<close>.  The keys that \<open>remove\<close> reads with a default
  (\<open>meta.get(key, default)\<close>) are optional.
\<close>

record meta =
  meta_version :: string
  meta_files :: "string list option"
  meta_package_file :: string
  meta_destdir :: "string option"
  meta_bin_files :: "string list option"
  meta_installed_root :: "string option"
  meta_installed_at :: int
  meta_recipe_path :: string

datatype node = RegFile | SymLink | Directory | Special

type_synonym filesystem = "(string \<times> node) list"

datatype file_state = Absent | Unreadable | Content string

record tarinfo =
  member_name :: string
  member_node :: node

text \<open>
  The externally visible actions of an installation, in the order in which they happen.
  The trace is not a variable of the program: it records which step was started when.
\<close>

datatype event =
    RunHook string string
  | Fetch string
  | ApplyPatch string
  | BuildCmd string string
  | Strip string
  | Pack string
  | CopyBins string
  | Unpack string
  | Unpacked string
  | Record string
  | Save

record state =
  db_data :: "string \<rightharpoonup> meta"
  db_file :: file_state
  visited :: "string set"
  logs :: "string \<rightharpoonup> string"
  fs :: filesystem
  trace :: "event list"

text \<open>
  The configuration globals, the fields of \<open>Installer\<close>, the recipe directory and the
  collaborators.  \<open>sh cmd cwd vars fs\<close> runs a command and gives its exit status, its
  combined output and the file tree it leaves; \<open>log_buffer\<close> is the number of bytes from
  which a text written to a log file is passed on at once instead of on closing.
\<close>

record env =
  BASE_DIR :: string
  SOURCES_DIR :: string
  PATCHES_DIR :: string
  DESTDIR_BASE :: string
  PACKAGES_DIR :: string
  LOGS_DIR :: string
  BIN_DIR :: string
  target_root :: string
  use_strip :: bool
  recipe_files :: "(string \<times> recipe) list"
  which :: "string \<Rightarrow> bool"
  sh :: "string \<Rightarrow> string \<Rightarrow> (string \<times> string) list \<Rightarrow> filesystem \<Rightarrow> int \<times> string \<times> filesystem"
  http_download :: "string \<Rightarrow> string \<Rightarrow> filesystem \<Rightarrow> string result \<times> filesystem"
  git_download :: "string \<Rightarrow> string \<Rightarrow> filesystem \<Rightarrow> string result \<times> filesystem"
  extract_tar_any :: "string \<Rightarrow> string \<Rightarrow> filesystem \<Rightarrow> string result \<times> filesystem"
  strip_tool :: "string \<Rightarrow> filesystem \<Rightarrow> filesystem"
  rmtree :: "string \<Rightarrow> filesystem \<Rightarrow> filesystem"
  mkdir :: "string \<Rightarrow> filesystem \<Rightarrow> unit result \<times> filesystem"
  tar_create :: "string \<Rightarrow> string \<Rightarrow> filesystem \<Rightarrow> unit result \<times> filesystem"
  copy_binaries :: "string \<Rightarrow> filesystem \<Rightarrow> string list result \<times> filesystem"
  tar_open :: "string \<Rightarrow> filesystem \<Rightarrow> tarinfo list result"
  tar_extractall :: "tarinfo list \<Rightarrow> string \<Rightarrow> filesystem \<Rightarrow> unit result \<times> filesystem"
  path_str :: "string \<Rightarrow> string"
  resolve :: "string \<Rightarrow> filesystem \<Rightarrow> string"
  may_delete :: "string \<Rightarrow> bool"
  db_writable :: bool
  json_load :: "string \<Rightarrow> (string \<rightharpoonup> meta) option"
  json_dump :: "(string \<rightharpoonup> meta) \<Rightarrow> string"
  log_buffer :: nat
  now :: int

type_synonym 'a prog = "state \<Rightarrow> 'a result \<times> state"

text \<open>Sequencing: an exception of the first part skips the rest and keeps the state reached.\<close>

definition and_then :: "'a prog \<Rightarrow> ('a \<Rightarrow> 'b prog) \<Rightarrow> 'b prog" where
  "and_then m f s = (case m s of (Raise e, s') \<Rightarrow> (Raise e, s') | (Return x, s') \<Rightarrow> f x s')"

definition emit :: "event \<Rightarrow> state \<Rightarrow> state" where
  "emit ev s = s\<lparr>trace := trace s @ [ev]\<rparr>"

text \<open>A step of the pipeline, entered in the trace when it starts.\<close>

definition step :: "event \<Rightarrow> 'a prog \<Rightarrow> 'a prog" where
  "step ev m s = m (emit ev s)"

text \<open>Lifting a collaborator that works on the file tree.\<close>

definition on_fs :: "(filesystem \<Rightarrow> 'a result \<times> filesystem) \<Rightarrow> 'a prog" where
  "on_fs f s = (case f (fs s) of (r, fs') \<Rightarrow> (r, s\<lparr>fs := fs'\<rparr>))"

definition nl :: string where
  "nl = [CHR 0x0A]"

section \<open>Recipes and the manifest\<close>

text \<open>
  \<open>Recipes.find\<close>: the recipe file of that name, parsed; \<open>FileNotFoundError\<close> when there
  is none, and \<open>Recipe.__init__\<close> raises \<open>ValueError\<close> for a recipe without a name.
\<close>

definition recipes_find :: "env \<Rightarrow> string \<Rightarrow> recipe result" where
  "recipes_find E n =
     (case map_of (recipe_files E) n of
        None \<Rightarrow> Raise (FileNotFoundError n)
      | Some r \<Rightarrow> if name r = [] then Raise (ValueError (path r)) else Return r)"

text \<open>\<open>DB._load\<close> of genpkg1.0.py: the \<open>open\<close> is inside the \<open>try\<close>.\<close>

definition db_load :: "env \<Rightarrow> file_state \<Rightarrow> (string \<rightharpoonup> meta) result" where
  "db_load E f =
     (case f of
        Absent \<Rightarrow> Return Map.empty
      | Unreadable \<Rightarrow> Return Map.empty
      | Content txt \<Rightarrow>
          (case json_load E txt of None \<Rightarrow> Return Map.empty | Some d \<Rightarrow> Return d))"

text \<open>\<open>DB._load\<close> of genpkg.py: the \<open>open\<close> is outside the \<open>try\<close>, only \<open>json.load\<close> is inside.\<close>

definition db_load_v09 :: "env \<Rightarrow> file_state \<Rightarrow> (string \<rightharpoonup> meta) result" where
  "db_load_v09 E f =
     (case f of
        Absent \<Rightarrow> Return Map.empty
      | Unreadable \<Rightarrow> Raise (OSError ''installed.json'')
      | Content txt \<Rightarrow>
          (case json_load E txt of None \<Rightarrow> Return Map.empty | Some d \<Rightarrow> Return d))"

text \<open>\<open>DB.save\<close>: the whole mapping is written again.\<close>

definition db_save :: "env \<Rightarrow> unit prog" where
  "db_save E s =
     (let s1 = emit Save s in
      if db_writable E then (Return (), s1\<lparr>db_file := Content (json_dump E (db_data s1))\<rparr>)
      else (Raise (OSError ''installed.json''), s1))"

section \<open>Commands, hooks and logs\<close>

definition log_content :: "state \<Rightarrow> string \<Rightarrow> string" where
  "log_content s f = (case logs s f of None \<Rightarrow> [] | Some txt \<Rightarrow> txt)"

text \<open>Writing to a file opened with mode \<open>"a"\<close>.\<close>

definition append_log :: "string \<Rightarrow> string \<Rightarrow> state \<Rightarrow> state" where
  "append_log f txt s = s\<lparr>logs := (logs s)(f \<mapsto> log_content s f @ txt)\<rparr>"

text \<open>\<open>run_cmd\<close> with a shell string and \<open>check=True\<close>; the output goes to the terminal.\<close>

definition run_cmd :: "env \<Rightarrow> string \<Rightarrow> string \<Rightarrow> unit prog" where
  "run_cmd E cmd cwd s =
     (case sh E cmd cwd [] (fs s) of
        (rc, out, fs') \<Rightarrow>
          if rc \<noteq> 0 then (Raise (CalledProcessError rc cmd), s\<lparr>fs := fs'\<rparr>)
          else (Return (), s\<lparr>fs := fs'\<rparr>))"

fun run_hooks :: "env \<Rightarrow> string list \<Rightarrow> string \<Rightarrow> string \<Rightarrow> string option \<Rightarrow> unit prog" where
  "run_hooks E [] stage workdir log_file s = (Return (), s)"
| "run_hooks E (cmd # hooks) stage workdir log_file s =
     (let s1 = emit (RunHook stage cmd) s;
          s2 = (case log_file of
                  None \<Rightarrow> s1
                | Some lf \<Rightarrow> append_log lf (nl @ ''[HOOK '' @ stage @ ''] $ '' @ cmd @ nl) s1)
      in case run_cmd E cmd workdir s2 of
           (Raise e, s3) \<Rightarrow> (Raise e, s3)
         | (Return u, s3) \<Rightarrow> run_hooks E hooks stage workdir log_file s3)"

text \<open>
  \<open>run_logged\<close>: the log is opened for appending and the command line is written to the
  file object, which holds a text shorter than its buffer back until the file is closed.
  The process writes its output to the file descriptor itself, and the \<open>with\<close> block closes
  the file when the process has ended, also when the exit status raises.  So the command
  line of a command shorter than the buffer reaches the file after the output of that
  command, and a longer one before it.
\<close>

definition run_logged :: "env \<Rightarrow> string \<Rightarrow> string \<Rightarrow> string \<Rightarrow> (string \<times> string) list \<Rightarrow> unit prog" where
  "run_logged E cmd cwd log_file vars s =
     (let line = nl @ ''$ '' @ cmd @ nl;
          held = length line < log_buffer E;
          s1 = append_log log_file (if held then [] else line) s in
      case sh E cmd cwd vars (fs s1) of
        (rc, out, fs') \<Rightarrow>
          (let s2 = append_log log_file (if held then out @ line else out) (s1\<lparr>fs := fs'\<rparr>) in
           if rc \<noteq> 0 then (Raise (CalledProcessError rc cmd), s2) else (Return (), s2)))"

text \<open>
  The loop over the commands in \<open>_run_build_commands\<close> of genpkg.py: the log was opened
  once, each command writes its output to it, and \<open>check=True\<close> raises on failure.
\<close>

fun run_commands_v09 :: "env \<Rightarrow> string list \<Rightarrow> string \<Rightarrow> string \<Rightarrow> (string \<times> string) list \<Rightarrow> unit prog" where
  "run_commands_v09 E [] cwd log_path vars s = (Return (), s)"
| "run_commands_v09 E (cmd # cmds) cwd log_path vars s =
     (let line = (if which E ''fakeroot'' then ''fakeroot sh -c '' @ [CHR 0x27] @ cmd @ [CHR 0x27] else cmd)
      in case sh E line cwd vars (fs s) of
        (rc, out, fs') \<Rightarrow>
          (let s1 = append_log log_path out (s\<lparr>fs := fs'\<rparr>) in
           if rc \<noteq> 0 then (Raise (CalledProcessError rc line), s1)
           else run_commands_v09 E cmds cwd log_path vars s1))"

text \<open>
  \<open>_run_build_commands\<close> of genpkg.py: the log is opened with mode \<open>"w"\<close>, which empties
  it, before the first command runs.
\<close>

definition run_build_commands_v09 :: "env \<Rightarrow> recipe \<Rightarrow> string \<Rightarrow> bool \<Rightarrow> string prog" where
  "run_build_commands_v09 E pkg build_dir strip_binaries s =
     (let destdir = DESTDIR_BASE E @ ''/'' @ name pkg;
          log_path = LOGS_DIR E @ ''/'' @ name pkg @ ''.log'';
          s1 = s\<lparr>logs := (logs s)(log_path \<mapsto> [])\<rparr>
      in case run_commands_v09 E (commands pkg) build_dir log_path [(''DESTDIR'', destdir)] s1 of
           (Raise e, s2) \<Rightarrow> (Raise e, s2)
         | (Return u, s2) \<Rightarrow>
             (Return destdir, if strip_binaries then s2\<lparr>fs := strip_tool E destdir (fs s2)\<rparr> else s2))"

section \<open>The build pipeline\<close>

definition exists :: "filesystem \<Rightarrow> string \<Rightarrow> bool" where
  "exists t p = (map_of t p \<noteq> None)"

text \<open>The block \<open># Download fonte\<close> of \<open>_build_and_install\<close>.\<close>

definition download_source :: "env \<Rightarrow> string \<Rightarrow> string prog" where
  "download_source E u =
     (if prefix ''git+'' u then on_fs (git_download E (drop 4 u) (SOURCES_DIR E))
      else and_then (on_fs (http_download E u (SOURCES_DIR E)))
             (\<lambda>tarball. on_fs (extract_tar_any E tarball (SOURCES_DIR E))))"

fun apply_patch_list :: "env \<Rightarrow> string list \<Rightarrow> string \<Rightarrow> unit prog" where
  "apply_patch_list E [] build_dir s = (Return (), s)"
| "apply_patch_list E (u # us) build_dir s =
     (case on_fs (http_download E u (PATCHES_DIR E)) (emit (ApplyPatch u) s) of
        (Raise e, s1) \<Rightarrow> (Raise e, s1)
      | (Return patch_file, s1) \<Rightarrow>
          (case run_cmd E (''patch -p1 < '' @ [CHR 0x27] @ patch_file @ [CHR 0x27]) build_dir s1 of
             (Raise e, s2) \<Rightarrow> (Raise e, s2)
           | (Return v, s2) \<Rightarrow> apply_patch_list E us build_dir s2))"

definition apply_patches :: "env \<Rightarrow> string list \<Rightarrow> string \<Rightarrow> unit prog" where
  "apply_patches E patch_urls build_dir s =
     (if patch_urls = [] then (Return (), s)
      else if \<not> which E ''patch'' then (Raise (RuntimeError ''patch''), s)
      else apply_patch_list E patch_urls build_dir s)"

text \<open>The block \<open># Preparar DESTDIR\<close>: wipe the staging directory, then create it.\<close>

definition prepare_destdir :: "env \<Rightarrow> string \<Rightarrow> unit prog" where
  "prepare_destdir E destdir s =
     (let s1 = (if exists (fs s) destdir then s\<lparr>fs := rmtree E destdir (fs s)\<rparr> else s)
      in on_fs (mkdir E destdir) s1)"

text \<open>The loop \<open>for cmd in recipe.commands: run_logged(...)\<close>.\<close>

fun run_build_commands ::
  "env \<Rightarrow> string \<Rightarrow> string list \<Rightarrow> string \<Rightarrow> string \<Rightarrow> (string \<times> string) list \<Rightarrow> unit prog" where
  "run_build_commands E nm [] src_dir log_file vars s = (Return (), s)"
| "run_build_commands E nm (cmd # cmds) src_dir log_file vars s =
     (case run_logged E cmd src_dir log_file vars (emit (BuildCmd nm cmd) s) of
        (Raise e, s1) \<Rightarrow> (Raise e, s1)
      | (Return u, s1) \<Rightarrow> run_build_commands E nm cmds src_dir log_file vars s1)"

definition strip_binaries_in :: "env \<Rightarrow> string \<Rightarrow> state \<Rightarrow> state" where
  "strip_binaries_in E destdir s =
     (if \<not> which E ''strip'' then s else s\<lparr>fs := strip_tool E destdir (fs s)\<rparr>)"

definition package_destdir :: "env \<Rightarrow> string \<Rightarrow> string \<Rightarrow> string \<Rightarrow> string prog" where
  "package_destdir E pkgname ver destdir =
     (let pkgfile = PACKAGES_DIR E @ ''/'' @ pkgname @ ''-'' @ ver @ ''.tar.gz''
      in and_then (on_fs (tar_create E pkgfile destdir)) (\<lambda>u s. (Return pkgfile, s)))"

definition copy_binaries_to_bindir :: "env \<Rightarrow> string \<Rightarrow> string list prog" where
  "copy_binaries_to_bindir E destdir = on_fs (copy_binaries E destdir)"

text \<open>
  The first loop of \<open>install_package_files\<close>: the name of the first member whose name
  starts with a slash, for which the function raises.
\<close>

fun first_absolute :: "tarinfo list \<Rightarrow> string option" where
  "first_absolute [] = None"
| "first_absolute (m # ms) =
     (if prefix ''/'' (member_name m) then Some (member_name m) else first_absolute ms)"

text \<open>
  \<open>install_package_files\<close>: every member is checked before \<open>extractall\<close> is called; the
  result is the sorted list of the distinct member names.
\<close>

definition install_package_files :: "env \<Rightarrow> string \<Rightarrow> string \<Rightarrow> string list prog" where
  "install_package_files E pkgfile root s =
     (case tar_open E pkgfile (fs s) of
        Raise e \<Rightarrow> (Raise e, s)
      | Return members \<Rightarrow>
          (case first_absolute members of
             Some bad \<Rightarrow> (Raise (RuntimeError bad), s)
           | None \<Rightarrow>
               (case tar_extractall E members root (fs s) of
                  (Raise e, fs') \<Rightarrow> (Raise e, s\<lparr>fs := fs'\<rparr>)
                | (Return u, fs') \<Rightarrow>
                    (Return (sort (remdups (map (\<lambda>m. path_str E (member_name m)) members))),
                     s\<lparr>fs := fs'\<rparr>))))"

definition new_record ::
  "env \<Rightarrow> recipe \<Rightarrow> string list \<Rightarrow> string \<Rightarrow> string \<Rightarrow> string list \<Rightarrow> meta" where
  "new_record E rc created_files pkgfile destdir bin_copied =
     \<lparr>meta_version = version rc,
      meta_files = Some created_files,
      meta_package_file = pkgfile,
      meta_destdir = Some destdir,
      meta_bin_files = Some bin_copied,
      meta_installed_root = Some (target_root E),
      meta_installed_at = now E,
      meta_recipe_path = path rc\<rparr>"

definition db_put :: "string \<Rightarrow> meta \<Rightarrow> state \<Rightarrow> state" where
  "db_put nm m s = emit (Record nm) (s\<lparr>db_data := (db_data s)(nm \<mapsto> m)\<rparr>)"

text \<open>\<open>Installer._build_and_install\<close>, step by step in the order of the source.\<close>

definition build_and_install :: "env \<Rightarrow> recipe \<Rightarrow> unit prog" where
  "build_and_install E rc =
     (let nm = name rc;
          ver = version rc;
          log_file = LOGS_DIR E @ ''/'' @ nm @ ''.log'';
          destdir = DESTDIR_BASE E @ ''/'' @ nm;
          vars = [(''DESTDIR'', destdir), (''GENPKG_NAME'', nm), (''GENPKG_VERSION'', ver),
                  (''SOURCES'', SOURCES_DIR E), (''PATCHES'', PATCHES_DIR E),
                  (''BIN_DIR'', BIN_DIR E)]
      in
      and_then (run_hooks E (pre_install rc) ''pre_install'' (BASE_DIR E) (Some log_file)) (\<lambda>u0.
      and_then (step (Fetch (url rc)) (download_source E (url rc))) (\<lambda>src_dir.
      and_then (apply_patches E (patches rc) src_dir) (\<lambda>u1.
      and_then (prepare_destdir E destdir) (\<lambda>u2.
      and_then (run_build_commands E nm (commands rc) src_dir log_file vars) (\<lambda>u3.
      and_then (\<lambda>s. (Return (),
                  if use_strip E then strip_binaries_in E destdir (emit (Strip nm) s) else s)) (\<lambda>u4.
      and_then (step (Pack nm) (package_destdir E nm ver destdir)) (\<lambda>pkgfile.
      and_then (step (CopyBins nm) (copy_binaries_to_bindir E destdir)) (\<lambda>bin_copied.
      and_then (step (Unpack nm) (install_package_files E pkgfile (target_root E)))
        (\<lambda>created_files.
      and_then (step (Unpacked nm)
                  (run_hooks E (post_install rc) ''post_install'' src_dir (Some log_file))) (\<lambda>u5.
      and_then (\<lambda>s. (Return (),
                  db_put nm (new_record E rc created_files pkgfile destdir bin_copied) s)) (\<lambda>u6.
      db_save E))))))))))))"

section \<open>Recursive installation\<close>

text \<open>
  \<open>Installer._install_with_deps\<close> and its loop over the dependencies.  A name that is
  already in \<open>visited\<close> makes the call return at once, without an error.
\<close>

function install_with_deps :: "env \<Rightarrow> string \<Rightarrow> unit prog"
  and install_deps :: "env \<Rightarrow> string list \<Rightarrow> unit prog" where
  "install_with_deps E n s =
     (if n \<in> visited s then (Return (), s)
      else
        (case recipes_find E n of
           Raise e \<Rightarrow> (Raise e, s\<lparr>visited := insert n (visited s)\<rparr>)
         | Return r \<Rightarrow>
             (case install_deps E (deps r) (s\<lparr>visited := insert n (visited s)\<rparr>) of
                (Raise e, s2) \<Rightarrow> (Raise e, s2)
              | (Return u, s2) \<Rightarrow>
                  if n \<in> dom (db_data s2) then (Return (), s2)
                  else build_and_install E r s2)))"
| "install_deps E [] s = (Return (), s)"
| "install_deps E (d # ds) s =
     (if d \<notin> dom (db_data s) then
        (case install_with_deps E d s of
           (Raise e, s1) \<Rightarrow> (Raise e, s1)
         | (Return u, s1) \<Rightarrow> install_deps E ds s1)
      else install_deps E ds s)"
  by pat_completeness auto

text \<open>\<open>Installer.install\<close>: the public entry point starts with an empty \<open>visited\<close> set.\<close>

definition install :: "env \<Rightarrow> string \<Rightarrow> unit prog" where
  "install E n s = install_with_deps E n (s\<lparr>visited := {}\<rparr>)"

section \<open>Removal\<close>

definition ALLOWED_REMOVE_PREFIXES :: "string list" where
  "ALLOWED_REMOVE_PREFIXES =
     [''/usr'', ''/etc'', ''/var'', ''/opt'', ''/bin'', ''/sbin'', ''/lib'', ''/lib64'',
      ''/usr/local'']"

text \<open>\<open>target_root / rel\<close> of pathlib: an absolute right operand replaces the left one.\<close>

definition path_join :: "string \<Rightarrow> string \<Rightarrow> string" where
  "path_join root rel =
     (if prefix ''/'' rel then rel
      else if root \<noteq> [] \<and> last root = CHR ''/'' then root @ rel
      else root @ ''/'' @ rel)"

text \<open>The sort key \<open>len(p.split("/"))\<close>.\<close>

definition depth :: "string \<Rightarrow> nat" where
  "depth p = Suc (length (filter (\<lambda>c. c = CHR ''/'') p))"

text \<open>\<open>sorted(files, key=depth, reverse=True)\<close>: stable, deepest paths first.\<close>

definition deepest_first :: "string list \<Rightarrow> string list" where
  "deepest_first files = rev (sort_key depth (rev files))"

text \<open>The entry \<open>p\<close> is inside the directory \<open>d\<close>.\<close>

definition inside :: "string \<Rightarrow> string \<Rightarrow> bool" where
  "inside d p = (p \<noteq> d \<and> prefix (if d = ''/'' then d else d @ ''/'') p)"

definition is_symlink :: "filesystem \<Rightarrow> string \<Rightarrow> bool" where
  "is_symlink t p = (map_of t p = Some SymLink)"

definition is_file :: "filesystem \<Rightarrow> string \<Rightarrow> bool" where
  "is_file t p = (map_of t p = Some RegFile)"

definition is_dir :: "filesystem \<Rightarrow> string \<Rightarrow> bool" where
  "is_dir t p = (map_of t p = Some Directory)"

text \<open>
  \<open>Path.unlink(missing_ok=True)\<close> and \<open>Path.rmdir()\<close> as the operating system performs
  them: a directory cannot be unlinked, only an empty directory can be removed, and the
  system may refuse either (\<open>may_delete\<close>).
\<close>

definition unlink :: "env \<Rightarrow> string \<Rightarrow> filesystem \<Rightarrow> unit result \<times> filesystem" where
  "unlink E p t =
     (case map_of t p of
        None \<Rightarrow> (Return (), t)
      | Some k \<Rightarrow>
          if k = Directory \<or> \<not> may_delete E p then (Raise (OSError p), t)
          else (Return (), AList.delete p t))"

definition rmdir :: "env \<Rightarrow> string \<Rightarrow> filesystem \<Rightarrow> unit result \<times> filesystem" where
  "rmdir E p t =
     (if is_dir t p \<and> \<not> list_ex (\<lambda>(q, k). inside p q) t \<and> may_delete E p
      then (Return (), AList.delete p t)
      else (Raise (OSError p), t))"

text \<open>
  The body of the loop \<open># Remover arquivos\<close> of \<open>Installer.remove\<close>, on the file tree
  and the counter \<open>removed\<close>.  Both \<open>except\<close> clauses only \<open>pass\<close>.
\<close>

definition remove_path :: "env \<Rightarrow> string \<Rightarrow> string \<Rightarrow> filesystem \<times> nat \<Rightarrow> filesystem \<times> nat" where
  "remove_path E root rel acc =
     (case acc of (t, removed) \<Rightarrow>
        (let abs_path = resolve E (path_join root rel) t in
         if resolve E root t = ''/'' \<and>
            \<not> list_ex (\<lambda>pref. prefix pref abs_path) ALLOWED_REMOVE_PREFIXES
         then (t, removed)
         else if is_symlink t abs_path \<or> is_file t abs_path then
           (case unlink E abs_path t of
              (Raise e, t') \<Rightarrow> (t', removed)
            | (Return u, t') \<Rightarrow> (t', removed + 1))
         else if is_dir t abs_path then
           (case rmdir E abs_path t of (r, t') \<Rightarrow> (t', removed))
         else (t, removed)))"

definition remove_files :: "env \<Rightarrow> string \<Rightarrow> string list \<Rightarrow> filesystem \<Rightarrow> filesystem \<times> nat" where
  "remove_files E root files t = fold (remove_path E root) (deepest_first files) (t, 0)"

text \<open>The loop \<open># Limpar BIN_DIR copiados\<close>: failures are ignored.\<close>

definition remove_bin_files :: "env \<Rightarrow> string list \<Rightarrow> filesystem \<Rightarrow> filesystem" where
  "remove_bin_files E bs t = fold (\<lambda>b t'. snd (unlink E b t')) bs t"

definition run_remove_hooks :: "env \<Rightarrow> recipe option \<Rightarrow> (recipe \<Rightarrow> string list) \<Rightarrow> string \<Rightarrow> unit prog" where
  "run_remove_hooks E r hooks stage s =
     (case r of
        None \<Rightarrow> (Return (), s)
      | Some rc \<Rightarrow> run_hooks E (hooks rc) stage (BASE_DIR E) None s)"

text \<open>\<open>Installer.remove\<close>.\<close>

definition remove :: "env \<Rightarrow> string \<Rightarrow> unit prog" where
  "remove E n s =
     (case db_data s n of
        None \<Rightarrow> (Return (), s)
      | Some m \<Rightarrow>
          (let r = (case recipes_find E n of Raise e \<Rightarrow> None | Return rc \<Rightarrow> Some rc);
               root = (case meta_installed_root m of None \<Rightarrow> ''/'' | Some x \<Rightarrow> x);
               files = (case meta_files m of None \<Rightarrow> [] | Some xs \<Rightarrow> xs);
               bins = (case meta_bin_files m of None \<Rightarrow> [] | Some xs \<Rightarrow> xs);
               staging = (case meta_destdir m of None \<Rightarrow> [] | Some x \<Rightarrow> x)
           in
           (and_then (run_remove_hooks E r pre_remove ''pre_remove'') (\<lambda>u0.
            and_then (\<lambda>s1. (Return (),
                       s1\<lparr>fs := remove_bin_files E bins (fst (remove_files E root files (fs s1)))\<rparr>))
              (\<lambda>u1.
            and_then (run_remove_hooks E r post_remove ''post_remove'') (\<lambda>u2.
            and_then (\<lambda>s2. (Return (),
                       s2\<lparr>fs := rmtree E staging (fs s2), db_data := (db_data s2)(n := None)\<rparr>))
              (\<lambda>u3. db_save E))))) s))"

section \<open>A concrete environment\<close>

text \<open>
  A small instance of the collaborators, on which the definitions can be run: every shell
  command succeeds except \<open>false\<close>, every download succeeds except that of
  \<open>unreachable.tar.gz\<close>, archives hold the members given, and paths are already resolved.
\<close>

definition sample_recipe :: "string \<Rightarrow> string list \<Rightarrow> recipe" where
  "sample_recipe n ds =
     \<lparr>name = n, version = ''1.0'', url = n @ ''.tar.gz'', deps = ds, commands = [''make install''],
      patches = [], pre_install = [], post_install = [], pre_remove = [], post_remove = [],
      path = ''repo/recipes/'' @ n @ ''.yml''\<rparr>"

definition sample_env :: "(string \<times> recipe) list \<Rightarrow> tarinfo list \<Rightarrow> env" where
  "sample_env rs members =
     \<lparr>BASE_DIR = ''.'', SOURCES_DIR = ''sources'', PATCHES_DIR = ''patches'',
      DESTDIR_BASE = ''destdir'', PACKAGES_DIR = ''packages'', LOGS_DIR = ''logs'',
      BIN_DIR = ''bin'', target_root = ''/'', use_strip = False,
      recipe_files = rs,
      which = (\<lambda>tool. True),
      sh = (\<lambda>cmd cwd vars t. (if cmd = ''false'' then 1 else 0, ''done'' @ nl, t)),
      http_download = (\<lambda>u d t.
         (if u = ''unreachable.tar.gz'' then Raise (RuntimeError u) else Return (d @ ''/'' @ u), t)),
      git_download = (\<lambda>u d t. (Return (d @ ''/'' @ u), t)),
      extract_tar_any = (\<lambda>f d t. (Return d, t)),
      strip_tool = (\<lambda>d t. t),
      rmtree = (\<lambda>d t. if d = [] then t else filter (\<lambda>(p, k). p \<noteq> d \<and> \<not> inside d p) t),
      mkdir = (\<lambda>d t. (Return (), if map_of t d = None then t @ [(d, Directory)] else t)),
      tar_create = (\<lambda>f d t. (Return (), AList.update f RegFile t)),
      copy_binaries = (\<lambda>d t. (Return [], t)),
      tar_open = (\<lambda>f t. Return members),
      tar_extractall = (\<lambda>ms root t.
         (Return (), fold (\<lambda>m. AList.update (path_join root (member_name m)) (member_node m)) ms t)),
      path_str = (\<lambda>p. p),
      resolve = (\<lambda>p t. p),
      may_delete = (\<lambda>p. True),
      db_writable = True,
      json_load = (\<lambda>txt. None),
      json_dump = (\<lambda>d. ''{}''),
      log_buffer = 8192,
      now = 0\<rparr>"

definition sample_state :: "filesystem \<Rightarrow> state" where
  "sample_state t =
     \<lparr>db_data = Map.empty, db_file = Absent, visited = {}, logs = Map.empty, fs = t, trace = []\<rparr>"

text \<open>
  Recipe directories for the situations the claims speak of: two packages that depend on
  each other; a package \<open>P\<close> with one dependency \<open>D\<close>; the same with a failing build
  command of \<open>P\<close>; and a package whose first dependency cannot be downloaded.
\<close>

definition cycle_env :: env where
  "cycle_env =
     sample_env [(''A'', sample_recipe ''A'' [''B'']), (''B'', sample_recipe ''B'' [''A''])] []"

definition chain_env :: env where
  "chain_env =
     sample_env [(''P'', sample_recipe ''P'' [''D'']), (''D'', sample_recipe ''D'' [])] []"


definition siblings_env :: env where
  "siblings_env =
     sample_env [(''P'', sample_recipe ''P'' [''unreachable'', ''D'']),
                 (''unreachable'', sample_recipe ''unreachable'' []),
                 (''D'', sample_recipe ''D'' [])] []"

definition only_P_recorded :: state where
  "only_P_recorded =
     (sample_state [])\<lparr>db_data :=
        [''P'' \<mapsto> new_record chain_env (sample_recipe ''P'' [''D'']) []
                    ''packages/P-1.0.tar.gz'' ''destdir/P'' []]\<rparr>"

text \<open>A package recorded with install root \<open>/\<close> whose only file is \<open>library/x\<close>.\<close>

definition lookalike_state :: state where
  "lookalike_state =
     (sample_state [(''/library'', Directory), (''/library/x'', RegFile)])\<lparr>db_data :=
        [''pkg'' \<mapsto> new_record (sample_env [] []) (sample_recipe ''pkg'' []) [''library/x'']
                      ''packages/pkg-1.0.tar.gz'' ''destdir/pkg'' []]\<rparr>"

text \<open>A directory holding two regular files and a device node.\<close>

definition share_tree :: filesystem where
  "share_tree =
     [(''/usr'', Directory), (''/usr/share'', Directory), (''/usr/share/foo'', Directory),
      (''/usr/share/foo/a'', RegFile), (''/usr/share/foo/b'', RegFile),
      (''/usr/share/foo/dev'', Special)]"

text \<open>A state in which the log of \<open>foo\<close> holds the output of an earlier run.\<close>

definition old_log_state :: state where
  "old_log_state = (sample_state [])\<lparr>logs := [''logs/foo.log'' \<mapsto> ''previous run'']\<rparr>"

text \<open>
  Further recipe directories: a chain \<open>P\<close>, \<open>Q\<close>, \<open>unreachable\<close> with a second dependency
  \<open>D\<close> of \<open>P\<close>; a package that lists itself as a dependency; a recipe file \<open>D\<close> that holds
  the recipe of a package named \<open>E\<close>; and three packages that depend on each other in a
  circle.
\<close>

definition deep_env :: env where
  "deep_env =
     sample_env [(''P'', sample_recipe ''P'' [''Q'', ''D'']),
                 (''Q'', sample_recipe ''Q'' [''unreachable'']),
                 (''unreachable'', sample_recipe ''unreachable'' []),
                 (''D'', sample_recipe ''D'' [])] []"

definition selfdep_env :: env where
  "selfdep_env = sample_env [(''P'', sample_recipe ''P'' [''P''])] []"

definition misnamed_env :: env where
  "misnamed_env =
     sample_env [(''P'', sample_recipe ''P'' [''D'']), (''D'', sample_recipe ''E'' [])] []"

definition triangle_env :: env where
  "triangle_env =
     sample_env [(''A'', sample_recipe ''A'' [''B'']), (''B'', sample_recipe ''B'' [''C'']),
                 (''C'', sample_recipe ''C'' [''A''])] []"

section \<open>Auxiliary notions for the proofs\<close>

text \<open>Events that a package's pipeline may produce before its record is written.\<close>

fun pre_event :: "string \<Rightarrow> event \<Rightarrow> bool" where
  "pre_event nm (BuildCmd m c) = (m = nm)"
| "pre_event nm (Unpack m) = (m = nm)"
| "pre_event nm (Unpacked m) = (m = nm)"
| "pre_event nm (Record m) = False"
| "pre_event nm Save = False"
| "pre_event nm ev = True"

text \<open>
  \<open>steps nm evs s s'\<close>: from \<open>s\<close> to \<open>s'\<close> the manifest and \<open>visited\<close> are untouched,
  the trace grew by \<open>evs\<close>, and every log kept what it had.
\<close>

definition steps :: "string \<Rightarrow> event list \<Rightarrow> state \<Rightarrow> state \<Rightarrow> bool" where
  "steps nm evs s s' =
     (visited s' = visited s \<and> db_data s' = db_data s \<and> db_file s' = db_file s \<and>
      trace s' = trace s @ evs \<and> list_all (pre_event nm) evs \<and>
      (\<forall>f. prefix (log_content s f) (log_content s' f)))"

definition quiet :: "string \<Rightarrow> 'a prog \<Rightarrow> bool" where
  "quiet nm m = (\<forall>s r s'. m s = (r, s') \<longrightarrow> (\<exists>evs. steps nm evs s s'))"

text \<open>
  What \<open>_build_and_install\<close> can do: raise before the record is written, or reach the
  record after the extraction has been completed, and then save.
\<close>

definition built :: "env \<Rightarrow> string \<Rightarrow> state \<Rightarrow> unit result \<times> state \<Rightarrow> bool" where
  "built E nm s out =
     ((\<exists>evs e. fst out = Raise e \<and> steps nm evs s (snd out)) \<or>
      (\<exists>evs s1 m. steps nm evs s s1 \<and> Unpacked nm \<in> set evs \<and> out = db_save E (db_put nm m s1)))"

text \<open>Entering a name in \<open>visited\<close>.\<close>

definition visit :: "string \<Rightarrow> state \<Rightarrow> state" where
  "visit n s = s\<lparr>visited := insert n (visited s)\<rparr>"

text \<open>Every recipe file carries the name of the package it describes.\<close>

definition well_named :: "env \<Rightarrow> bool" where
  "well_named E = list_all (\<lambda>(n, r). name r = n) (recipe_files E)"

text \<open>In a sequence of events, every record is written after the extraction of that package.\<close>

definition unpacked_first :: "event list \<Rightarrow> bool" where
  "unpacked_first evs =
     (\<forall>j<length evs. \<forall>n. evs ! j = Record n \<longrightarrow> (\<exists>i<j. evs ! i = Unpacked n))"

text \<open>
  \<open>grew s evs s'\<close>: what a whole installation may change.  The trace grows by \<open>evs\<close>, the
  manifest gains exactly the names recorded in \<open>evs\<close>, each after its extraction, the
  logs keep what they had, and the manifest file is only touched by a save.
\<close>

definition grew :: "state \<Rightarrow> event list \<Rightarrow> state \<Rightarrow> bool" where
  "grew s evs s' =
     (trace s' = trace s @ evs \<and> visited s \<subseteq> visited s' \<and>
      (\<forall>n. (db_data s' n \<noteq> None) = (db_data s n \<noteq> None \<or> Record n \<in> set evs)) \<and>
      unpacked_first evs \<and>
      (\<forall>f. prefix (log_content s f) (log_content s' f)) \<and>
      (Save \<notin> set evs \<longrightarrow> db_file s' = db_file s))"

text \<open>
  \<open>fresh_builds s r s'\<close>: build commands ran only for names first visited between \<open>s\<close>
  and \<open>s'\<close>, and after a normal return every such name is recorded.
\<close>

definition fresh_builds :: "state \<Rightarrow> unit result \<Rightarrow> state \<Rightarrow> bool" where
  "fresh_builds s r s' =
     (visited s \<subseteq> visited s' \<and> dom (db_data s) \<subseteq> dom (db_data s') \<and>
      (\<exists>evs. trace s' = trace s @ evs \<and>
         (\<forall>m c. BuildCmd m c \<in> set evs \<longrightarrow> m \<in> visited s' \<and> m \<notin> visited s)) \<and>
      (r = Return () \<longrightarrow> visited s' - visited s \<subseteq> dom (db_data s')))"

text \<open>
  A path that one step of the removal loop may delete from the tree \<open>t\<close>: a regular file, a
  symbolic link, or a directory with no entry below it.
\<close>

definition removable :: "filesystem \<Rightarrow> string \<Rightarrow> bool" where
  "removable t x =
     (map_of t x = Some RegFile \<or> map_of t x = Some SymLink \<or>
      (map_of t x = Some Directory \<and> \<not> list_ex (\<lambda>(q, k). inside x q) t))"

text \<open>
  The tree \<open>t\<close> is what is left of \<open>t0\<close>: special files are kept, nothing is added or changed, and
  a directory of \<open>t0\<close> is kept as long as something below it is.
\<close>

definition shrinks :: "filesystem \<Rightarrow> filesystem \<Rightarrow> bool" where
  "shrinks t0 t =
     ((\<forall>p. map_of t0 p = Some Special \<longrightarrow> map_of t p = Some Special) \<and>
      (\<forall>p. map_of t p \<noteq> None \<longrightarrow> map_of t p = map_of t0 p) \<and>
      (\<forall>p q. map_of t0 p = Some Directory \<and> inside p q \<and> map_of t q \<noteq> None
         \<longrightarrow> map_of t p = Some Directory))"

text \<open>
  \<open>enters E n s q sq\<close>: the call of \<open>_install_with_deps\<close> for \<open>n\<close> in the state \<open>s\<close> makes,
  directly or through the calls for other packages, the call for \<open>q\<close> in the state \<open>sq\<close>.
  A call for a name that is not visited and has a recipe goes through the dependencies; it
  reaches the dependency \<open>d\<close> when the loop over those before it has returned, and calls
  the function for \<open>d\<close> when \<open>d\<close> has no record.
\<close>

inductive enters :: "env \<Rightarrow> string \<Rightarrow> state \<Rightarrow> string \<Rightarrow> state \<Rightarrow> bool" for E where
  here: "enters E n s n s"
| dep: "n \<notin> visited s \<Longrightarrow> recipes_find E n = Return r \<Longrightarrow> deps r = pre @ d # post \<Longrightarrow>
        install_deps E pre (visit n s) = (Return (), s1) \<Longrightarrow> db_data s1 d = None \<Longrightarrow>
        enters E d s1 q sq \<Longrightarrow> enters E n s q sq"

text \<open>
  \<open>raises_in E q sq e s'\<close>: the call for \<open>q\<close> in the state \<open>sq\<close> fails by \<open>q\<close> itself, with the
  error \<open>e\<close> in the state \<open>s'\<close>: the recipe of \<open>q\<close> is not found, or its dependencies have been
  gone through and its own pipeline raises.
\<close>

definition raises_in :: "env \<Rightarrow> string \<Rightarrow> state \<Rightarrow> error \<Rightarrow> state \<Rightarrow> bool" where
  "raises_in E q sq e s' =
     (q \<notin> visited sq \<and>
      (case recipes_find E q of
         Raise e' \<Rightarrow> e' = e \<and> s' = visit q sq
       | Return r \<Rightarrow>
           (case install_deps E (deps r) (visit q sq) of
              (Raise e', s2) \<Rightarrow> False
            | (Return u, s2) \<Rightarrow>
                db_data s2 q = None \<and> build_and_install E r s2 = (Raise e, s'))))"

text \<open>
  \<open>saved E s r s'\<close>: after a normal return, either the manifest and its file are as they
  were, or the file holds the manifest as it is now.
\<close>

definition saved :: "env \<Rightarrow> state \<Rightarrow> unit result \<Rightarrow> state \<Rightarrow> bool" where
  "saved E s r s' =
     (r = Return () \<longrightarrow>
        (db_data s' = db_data s \<and> db_file s' = db_file s) \<or>
        db_file s' = Content (json_dump E (db_data s')))"

text \<open>The recipe of \<open>a\<close> lists \<open>b\<close> as a dependency.\<close>

definition dep_of :: "env \<Rightarrow> string \<Rightarrow> string \<Rightarrow> bool" where
  "dep_of E a b = (case recipes_find E a of Raise e \<Rightarrow> False | Return r \<Rightarrow> b \<in> set (deps r))"

text \<open>
  \<open>needed E s n m\<close>: \<open>m\<close> is \<open>n\<close>, or is reached from \<open>n\<close> along dependencies that have no
  record in the state \<open>s\<close>.
\<close>

inductive needed :: "env \<Rightarrow> state \<Rightarrow> string \<Rightarrow> string \<Rightarrow> bool" for E s n where
  root: "needed E s n n"
| dep: "needed E s n a \<Longrightarrow> dep_of E a b \<Longrightarrow> db_data s b = None \<Longrightarrow> needed E s n b"

text \<open>Records are added for names first visited between \<open>s\<close> and \<open>s'\<close> only.\<close>

definition new_records :: "state \<Rightarrow> unit result \<Rightarrow> state \<Rightarrow> bool" where
  "new_records s r s' =
     (visited s \<subseteq> visited s' \<and>
      dom (db_data s') \<subseteq> dom (db_data s) \<union> (visited s' - visited s))"

text \<open>
  After a normal return, every dependency of a name first visited between \<open>s\<close> and \<open>s'\<close>
  is visited or recorded.
\<close>

definition deps_seen :: "env \<Rightarrow> state \<Rightarrow> unit result \<Rightarrow> state \<Rightarrow> bool" where
  "deps_seen E s r s' =
     (visited s \<subseteq> visited s' \<and> dom (db_data s) \<subseteq> dom (db_data s') \<and>
      (r = Return () \<longrightarrow>
         (\<forall>a\<in>visited s' - visited s. \<forall>b. dep_of E a b \<longrightarrow>
            b \<in> visited s' \<or> b \<in> dom (db_data s'))))"

text \<open>
  An error comes from a visited name: from the lookup of its recipe, or from its pipeline,
  which ended in the state reached.
\<close>

definition raised_by :: "env \<Rightarrow> state \<Rightarrow> unit result \<Rightarrow> state \<Rightarrow> bool" where
  "raised_by E s r s' =
     (\<forall>e. r = Raise e \<longrightarrow>
        (\<exists>q\<in>visited s'. recipes_find E q = Raise e \<or>
           (\<exists>rc s2. recipes_find E q = Return rc \<and> build_and_install E rc s2 = (Raise e, s'))))"

section \<open>Properties of the pipeline steps\<close>

lemma steps_refl: "steps nm [] s s"
  by (simp add: steps_def)

lemma steps_trans: "steps nm e1 s s1 \<Longrightarrow> steps nm e2 s1 s2 \<Longrightarrow> steps nm (e1 @ e2) s s2"
  by (auto simp: steps_def intro: prefix_order.trans)

lemma steps_fs: "steps nm [] s (s\<lparr>fs := t\<rparr>)"
  by (simp add: steps_def log_content_def)

lemma steps_emit: "pre_event nm ev \<Longrightarrow> steps nm [ev] s (emit ev s)"
  by (simp add: steps_def emit_def log_content_def)

lemma steps_append_log: "steps nm [] s (append_log f txt s)"
  by (simp add: steps_def append_log_def log_content_def)

lemma on_fs_steps: "on_fs g s = (r, s') \<Longrightarrow> steps nm [] s s'"
  by (auto simp: on_fs_def steps_fs split: prod.splits)

lemma run_cmd_steps: "run_cmd E cmd cwd s = (r, s') \<Longrightarrow> steps nm [] s s'"
  by (auto simp: run_cmd_def steps_fs split: prod.splits if_splits)

lemma run_hooks_steps: "run_hooks E hs st wd lf s = (r, s') \<Longrightarrow> \<exists>evs. steps nm evs s s'"
proof (induction hs arbitrary: s)
  case Nil
  then show ?case using steps_refl by auto
next
  case (Cons h hs)
  let ?s1 = "emit (RunHook st h) s"
  let ?s2 = "case lf of None \<Rightarrow> ?s1 | Some f \<Rightarrow> append_log f (nl @ ''[HOOK '' @ st @ ''] $ '' @ h @ nl) ?s1"
  have a: "steps nm [RunHook st h] s ?s1" by (simp add: steps_emit)
  have b: "steps nm [] ?s1 ?s2" by (cases lf) (simp_all add: steps_refl steps_append_log)
  obtain r3 s3 where c: "run_cmd E h wd ?s2 = (r3, s3)" by (cases "run_cmd E h wd ?s2")
  have d: "steps nm [] ?s2 s3" using c by (rule run_cmd_steps)
  have e: "steps nm [RunHook st h] s s3" using steps_trans[OF steps_trans[OF a b] d] by simp
  show ?case
  proof (cases r3)
    case (Return u)
    with Cons.prems c have "run_hooks E hs st wd lf s3 = (r, s')" by (simp add: Let_def)
    then obtain evs where "steps nm evs s3 s'" using Cons.IH by blast
    with e show ?thesis using steps_trans by blast
  next
    case (Raise x)
    with Cons.prems c have "s' = s3" by (simp add: Let_def)
    with e show ?thesis by blast
  qed
qed

lemma quietI: "(\<And>s r s'. m s = (r, s') \<Longrightarrow> \<exists>evs. steps nm evs s s') \<Longrightarrow> quiet nm m"
  by (auto simp: quiet_def)

lemma quietD: "quiet nm m \<Longrightarrow> m s = (r, s') \<Longrightarrow> \<exists>evs. steps nm evs s s'"
  by (auto simp: quiet_def)

lemma quiet_and_then: "quiet nm m \<Longrightarrow> (\<And>x. quiet nm (f x)) \<Longrightarrow> quiet nm (and_then m f)"
proof (rule quietI)
  fix s r s'
  assume m: "quiet nm m" and f: "\<And>x. quiet nm (f x)" and a: "and_then m f s = (r, s')"
  obtain r1 s1 where ms: "m s = (r1, s1)" by (cases "m s")
  then obtain e1 where e1: "steps nm e1 s s1" using quietD[OF m] by blast
  show "\<exists>evs. steps nm evs s s'"
  proof (cases r1)
    case (Return x)
    with a ms have "f x s1 = (r, s')" by (simp add: and_then_def)
    then obtain e2 where "steps nm e2 s1 s'" using quietD[OF f] by blast
    with e1 show ?thesis using steps_trans by blast
  next
    case (Raise e)
    with a ms have "s' = s1" by (simp add: and_then_def)
    with e1 show ?thesis by blast
  qed
qed

lemma quiet_step: "pre_event nm ev \<Longrightarrow> quiet nm m \<Longrightarrow> quiet nm (step ev m)"
proof (rule quietI)
  fix s r s'
  assume "pre_event nm ev" "quiet nm m" "step ev m s = (r, s')"
  then show "\<exists>evs. steps nm evs s s'"
    using steps_trans[OF steps_emit] quietD unfolding step_def by blast
qed

lemma quiet_on_fs: "quiet nm (on_fs g)"
  by (rule quietI) (blast dest: on_fs_steps)

lemma quiet_run_cmd: "quiet nm (run_cmd E cmd cwd)"
  by (rule quietI) (blast dest: run_cmd_steps)

lemma quiet_run_hooks: "quiet nm (run_hooks E hs st wd lf)"
  by (rule quietI) (rule run_hooks_steps)

lemma quiet_download_source: "quiet nm (download_source E u)"
  by (simp add: download_source_def quiet_and_then quiet_on_fs)

lemma quiet_apply_patch_list: "quiet nm (apply_patch_list E us bd)"
proof (induction us)
  case Nil
  show ?case by (rule quietI) (use steps_refl in auto)
next
  case (Cons u us)
  have eq: "apply_patch_list E (u # us) bd =
      step (ApplyPatch u) (and_then (on_fs (http_download E u (PATCHES_DIR E)))
         (\<lambda>pf. and_then (run_cmd E (''patch -p1 < '' @ [CHR 0x27] @ pf @ [CHR 0x27]) bd)
            (\<lambda>v. apply_patch_list E us bd)))"
    by (rule ext) (simp add: and_then_def step_def split: prod.splits result.splits)
  show ?case unfolding eq
    by (intro quiet_step quiet_and_then quiet_on_fs quiet_run_cmd Cons.IH) simp
qed

lemma quiet_apply_patches: "quiet nm (apply_patches E us bd)"
proof (rule quietI)
  fix s r s'
  assume "apply_patches E us bd s = (r, s')"
  then show "\<exists>evs. steps nm evs s s'"
    using quietD[OF quiet_apply_patch_list] steps_refl
    by (fastforce simp: apply_patches_def split: if_splits)
qed

lemma quiet_prepare_destdir: "quiet nm (prepare_destdir E d)"
proof (rule quietI)
  fix s r s'
  assume "prepare_destdir E d s = (r, s')"
  then show "\<exists>evs. steps nm evs s s'"
    using steps_trans[OF steps_fs on_fs_steps] on_fs_steps
    by (fastforce simp: prepare_destdir_def Let_def split: if_splits)
qed

lemma run_logged_steps: "run_logged E cmd cwd lf vars s = (r, s') \<Longrightarrow> steps nm [] s s'"
proof -
  assume a: "run_logged E cmd cwd lf vars s = (r, s')"
  let ?line = "nl @ ''$ '' @ cmd @ nl"
  let ?held = "length ?line < log_buffer E"
  let ?s1 = "append_log lf (if ?held then [] else ?line) s"
  obtain rc out t where sh: "sh E cmd cwd vars (fs ?s1) = (rc, out, t)"
    by (cases "sh E cmd cwd vars (fs ?s1)")
  let ?txt = "if ?held then out @ ?line else out"
  have "s' = append_log lf ?txt (?s1\<lparr>fs := t\<rparr>)"
    using a sh by (simp add: run_logged_def Let_def split: if_splits)
  moreover have "steps nm [] s (append_log lf ?txt (?s1\<lparr>fs := t\<rparr>))"
    using steps_trans[OF steps_trans[OF steps_append_log steps_fs] steps_append_log] by simp
  ultimately show ?thesis by simp
qed

lemma quiet_run_build_commands: "quiet nm (run_build_commands E nm cmds sd lf vars)"
proof (induction cmds)
  case Nil
  show ?case by (rule quietI) (use steps_refl in auto)
next
  case (Cons c cmds)
  have eq: "run_build_commands E nm (c # cmds) sd lf vars =
      step (BuildCmd nm c) (and_then (run_logged E c sd lf vars)
         (\<lambda>v. run_build_commands E nm cmds sd lf vars))"
    by (rule ext) (simp add: and_then_def step_def split: prod.splits result.splits)
  have "quiet nm (run_logged E c sd lf vars)"
    by (rule quietI) (blast dest: run_logged_steps)
  then show ?case unfolding eq
    by (intro quiet_step quiet_and_then Cons.IH) simp_all
qed

lemma quiet_strip: "quiet nm (\<lambda>s. (Return (), if use_strip E then strip_binaries_in E d (emit (Strip nm) s) else s))"
proof (rule quietI)
  fix s r s'
  assume "(Return (), if use_strip E then strip_binaries_in E d (emit (Strip nm) s) else s) = (r, s')"
  then show "\<exists>evs. steps nm evs s s'"
    using steps_refl steps_emit[of nm "Strip nm" s] steps_trans[OF steps_emit steps_fs, of nm "Strip nm" s]
    by (fastforce simp: strip_binaries_in_def split: if_splits)
qed

lemma quiet_return: "quiet nm (\<lambda>s. (Return x, s))"
  by (rule quietI) (use steps_refl in auto)

lemma quiet_package_destdir: "quiet nm (package_destdir E pn ver d)"
  by (simp add: package_destdir_def Let_def quiet_and_then quiet_on_fs quiet_return)

lemma quiet_copy_binaries: "quiet nm (copy_binaries_to_bindir E d)"
  by (simp add: copy_binaries_to_bindir_def quiet_on_fs)

lemma quiet_install_package_files: "quiet nm (install_package_files E pf root)"
proof (rule quietI)
  fix s r s'
  assume "install_package_files E pf root s = (r, s')"
  then show "\<exists>evs. steps nm evs s s'"
    using steps_refl steps_fs
    by (fastforce simp: install_package_files_def split: result.splits option.splits prod.splits)
qed

lemma builtI1: "steps nm evs s s' \<Longrightarrow> built E nm s (Raise e, s')"
  unfolding built_def by (rule disjI1) auto

lemma builtI2:
  "steps nm evs s s1 \<Longrightarrow> Unpacked nm \<in> set evs \<Longrightarrow> built E nm s (db_save E (db_put nm m s1))"
  unfolding built_def by (rule disjI2) (intro exI[of _ evs] exI[of _ s1] exI[of _ m], simp)

lemma builtE:
  assumes "built E nm s out"
  obtains (raised) evs e where "out = (Raise e, snd out)" "steps nm evs s (snd out)"
    | (recorded) evs s1 m where "steps nm evs s s1" "Unpacked nm \<in> set evs"
        "out = db_save E (db_put nm m s1)"
proof -
  from assms have
    "(\<exists>evs e. fst out = Raise e \<and> steps nm evs s (snd out)) \<or>
     (\<exists>evs s1 m. steps nm evs s s1 \<and> Unpacked nm \<in> set evs \<and> out = db_save E (db_put nm m s1))"
    by (simp only: built_def)
  then show thesis
  proof (elim disjE exE conjE)
    fix evs e
    assume "fst out = Raise e" "steps nm evs s (snd out)"
    moreover from this have "out = (Raise e, snd out)" by (cases out) simp
    ultimately show thesis using raised by blast
  next
    fix evs s1 m
    assume "steps nm evs s s1" "Unpacked nm \<in> set evs" "out = db_save E (db_put nm m s1)"
    then show thesis by (rule recorded)
  qed
qed

lemma built_steps:
  assumes a: "steps nm e1 s s1" and b: "built E nm s1 out"
  shows "built E nm s out"
  using b
proof (cases rule: builtE)
  case (raised evs e)
  have "steps nm (e1 @ evs) s (snd out)" using a raised(2) by (rule steps_trans)
  then have "built E nm s (Raise e, snd out)" by (rule builtI1)
  with raised(1) show ?thesis by simp
next
  case (recorded evs s2 m)
  have "steps nm (e1 @ evs) s s2" using a recorded(1) by (rule steps_trans)
  moreover have "Unpacked nm \<in> set (e1 @ evs)" using recorded(2) by simp
  ultimately have "built E nm s (db_save E (db_put nm m s2))" by (rule builtI2)
  with recorded(3) show ?thesis by simp
qed

lemma built_and_then:
  assumes m: "quiet nm m" and f: "\<And>x s1. built E nm s1 (f x s1)"
  shows "built E nm s (and_then m f s)"
proof -
  obtain r1 s1 where ms: "m s = (r1, s1)" by (cases "m s")
  then obtain e1 where e1: "steps nm e1 s s1" using quietD[OF m] by blast
  show ?thesis
  proof (cases r1)
    case (Return x)
    with ms have "and_then m f s = f x s1" by (simp add: and_then_def)
    with built_steps[OF e1 f] show ?thesis by simp
  next
    case (Raise e)
    with ms have "and_then m f s = (Raise e, s1)" by (simp add: and_then_def)
    with e1 show ?thesis by (simp add: builtI1)
  qed
qed

lemma built_final:
  "built E nm s
     (and_then (step (Unpacked nm) (run_hooks E hs st wd lf))
        (\<lambda>u5. and_then (\<lambda>s. (Return (), db_put nm m s)) (\<lambda>u6. db_save E)) s)"
proof -
  obtain r1 s1 where h: "run_hooks E hs st wd lf (emit (Unpacked nm) s) = (r1, s1)"
    by (cases "run_hooks E hs st wd lf (emit (Unpacked nm) s)")
  then obtain e1 where "steps nm e1 (emit (Unpacked nm) s) s1"
    using run_hooks_steps by blast
  then have e: "steps nm (Unpacked nm # e1) s s1"
    using steps_trans[OF steps_emit[of nm "Unpacked nm" s]] by simp
  show ?thesis
  proof (cases r1)
    case (Return x)
    with h have "and_then (step (Unpacked nm) (run_hooks E hs st wd lf))
        (\<lambda>u5. and_then (\<lambda>s. (Return (), db_put nm m s)) (\<lambda>u6. db_save E)) s
        = db_save E (db_put nm m s1)" by (simp add: and_then_def step_def)
    with builtI2[OF e, of E m] show ?thesis by simp
  next
    case (Raise x)
    with h have "and_then (step (Unpacked nm) (run_hooks E hs st wd lf))
        (\<lambda>u5. and_then (\<lambda>s. (Return (), db_put nm m s)) (\<lambda>u6. db_save E)) s
        = (Raise x, s1)" by (simp add: and_then_def step_def)
    with builtI1[OF e, of E x] show ?thesis by simp
  qed
qed

lemma build_and_install_built: "built E (name rc) s (build_and_install E rc s)"
  unfolding build_and_install_def Let_def
  by (intro built_final built_and_then quiet_step quiet_run_hooks quiet_download_source
        quiet_apply_patches quiet_prepare_destdir quiet_run_build_commands quiet_strip
        quiet_package_destdir quiet_copy_binaries quiet_install_package_files) simp_all

lemma db_save_visited: "visited (snd (db_save E s)) = visited s"
  by (simp add: db_save_def emit_def Let_def)

lemma build_and_install_visited: "visited (snd (build_and_install E rc s)) = visited s"
  using build_and_install_built[of E rc s]
proof (cases rule: builtE)
  case (raised evs e)
  then show ?thesis by (simp add: steps_def)
next
  case (recorded evs s1 m)
  then show ?thesis by (simp add: db_save_visited db_put_def emit_def steps_def)
qed

section \<open>Termination of the recursive installation\<close>

lemma install_visited_mono:
  "install_with_deps_install_deps_dom (Inl (E, n, s)) \<Longrightarrow>
     visited s \<subseteq> visited (snd (install_with_deps E n s))"
  "install_with_deps_install_deps_dom (Inr (E, ds, s)) \<Longrightarrow>
     visited s \<subseteq> visited (snd (install_deps E ds s))"
proof (induction E n s and E ds s rule: install_with_deps_install_deps.pinduct)
  case (1 E n s)
  show ?case
  proof (cases "n \<in> visited s")
    case True
    with 1(1) show ?thesis by (simp add: install_with_deps.psimps)
  next
    case nv: False
    show ?thesis
    proof (cases "recipes_find E n")
      case (Raise e)
      with nv 1(1) show ?thesis by (auto simp: install_with_deps.psimps)
    next
      case (Return r)
      let ?s1 = "s\<lparr>visited := insert n (visited s)\<rparr>"
      obtain r2 s2 where d: "install_deps E (deps r) ?s1 = (r2, s2)"
        by (cases "install_deps E (deps r) ?s1")
      have sub: "visited ?s1 \<subseteq> visited s2" using 1(2)[OF nv Return] d by simp
      show ?thesis
      proof (cases r2)
        case (Raise e)
        with nv \<open>recipes_find E n = Return r\<close> d 1(1) sub show ?thesis
          by (auto simp: install_with_deps.psimps)
      next
        case Ret2: (Return u)
        with nv \<open>recipes_find E n = Return r\<close> d 1(1) sub show ?thesis
          by (auto simp: install_with_deps.psimps build_and_install_visited)
      qed
    qed
  qed
next
  case (2 E s)
  then show ?case by (simp add: install_deps.psimps)
next
  case (3 E d ds s)
  show ?case
  proof (cases "d \<in> dom (db_data s)")
    case True
    with 3(1) 3(4) show ?thesis by (simp add: install_deps.psimps)
  next
    case nd: False
    obtain r1 s1 where a: "install_with_deps E d s = (r1, s1)"
      by (cases "install_with_deps E d s")
    have sub: "visited s \<subseteq> visited s1" using 3(2)[OF nd] a by simp
    show ?thesis
    proof (cases r1)
      case (Raise e)
      with nd a sub 3(1) show ?thesis by (simp add: install_deps.psimps)
    next
      case (Return u)
      have "visited s1 \<subseteq> visited (snd (install_deps E ds s1))"
        using 3(3)[OF nd a[symmetric] Return] .
      with nd a sub Return 3(1) show ?thesis by (auto simp: install_deps.psimps)
    qed
  qed
qed

lemma recipes_find_known: "recipes_find E n = Return r \<Longrightarrow> n \<in> fst ` set (recipe_files E)"
  by (auto simp: recipes_find_def split: option.splits if_splits dest!: map_of_SomeD intro: rev_image_eqI)

lemma card_unvisited_less:
  "n \<in> fst ` set xs \<Longrightarrow> n \<notin> V \<Longrightarrow> card (fst ` set xs - insert n V) < card (fst ` set xs - V)"
  by (rule psubset_card_mono) auto

lemma card_unvisited_le: "V \<subseteq> W \<Longrightarrow> card (fst ` set xs - W) \<le> card (fst ` set xs - V)"
  by (rule card_mono) auto

termination install_with_deps
proof (relation "inv_image (less_than <*lex*> less_than)
    (\<lambda>x. case x of
       Inl (E, n, s) \<Rightarrow> (card (fst ` set (recipe_files E) - visited s), 0)
     | Inr (E, ds, s) \<Rightarrow> (card (fst ` set (recipe_files E) - visited s), Suc (length ds)))",
    goal_cases)
  case 1
  show ?case by (rule wf_inv_image) (intro wf_lex_prod wf_less_than)
next
  case (2 E n s r)
  then show ?case
    using card_unvisited_less[OF recipes_find_known[OF 2(2)] 2(1)] by simp
next
  case (3 E d ds s)
  then show ?case by simp
next
  case (4 E d ds s x y u)
  have "visited s \<subseteq> visited (snd (install_with_deps E d s))"
    using install_visited_mono(1)[OF 4(4)] .
  with 4(2) have "visited s \<subseteq> visited y" by (metis snd_conv)
  from card_unvisited_le[OF this, of "recipe_files E"] show ?case by auto
next
  case (5 E d ds s)
  then show ?case by simp
qed

section \<open>The recursive installation, case by case\<close>

lemma iwd_visited: "n \<in> visited s \<Longrightarrow> install_with_deps E n s = (Return (), s)"
  by simp

lemma iwd_notfound:
  "n \<notin> visited s \<Longrightarrow> recipes_find E n = Raise e \<Longrightarrow>
     install_with_deps E n s = (Raise e, visit n s)"
  by (simp add: visit_def)

lemma iwd_deps_fail:
  "n \<notin> visited s \<Longrightarrow> recipes_find E n = Return r \<Longrightarrow>
   install_deps E (deps r) (visit n s) = (Raise e, s2) \<Longrightarrow>
     install_with_deps E n s = (Raise e, s2)"
  by (simp add: visit_def)

lemma iwd_already:
  "n \<notin> visited s \<Longrightarrow> recipes_find E n = Return r \<Longrightarrow>
   install_deps E (deps r) (visit n s) = (Return u, s2) \<Longrightarrow> n \<in> dom (db_data s2) \<Longrightarrow>
     install_with_deps E n s = (Return (), s2)"
  by (simp add: visit_def)

lemma iwd_build:
  "n \<notin> visited s \<Longrightarrow> recipes_find E n = Return r \<Longrightarrow>
   install_deps E (deps r) (visit n s) = (Return u, s2) \<Longrightarrow> n \<notin> dom (db_data s2) \<Longrightarrow>
     install_with_deps E n s = build_and_install E r s2"
  by (simp add: visit_def)

lemma ideps_skip: "d \<in> dom (db_data s) \<Longrightarrow> install_deps E (d # ds) s = install_deps E ds s"
  by simp

lemma ideps_fail:
  "d \<notin> dom (db_data s) \<Longrightarrow> install_with_deps E d s = (Raise e, s1) \<Longrightarrow>
     install_deps E (d # ds) s = (Raise e, s1)"
  by simp

lemma ideps_next:
  "d \<notin> dom (db_data s) \<Longrightarrow> install_with_deps E d s = (Return u, s1) \<Longrightarrow>
     install_deps E (d # ds) s = install_deps E ds s1"
  by simp

lemma install_rule:
  fixes P :: "state \<Rightarrow> unit result \<Rightarrow> state \<Rightarrow> bool"
  assumes refl: "\<And>s. P s (Return ()) s"
    and seq: "\<And>s s1 r s'. P s (Return ()) s1 \<Longrightarrow> P s1 r s' \<Longrightarrow> P s r s'"
    and notfound: "\<And>n s e. n \<notin> visited s \<Longrightarrow> recipes_find E n = Raise e \<Longrightarrow>
        P s (Raise e) (visit n s)"
    and depsfail: "\<And>n s r e s2. n \<notin> visited s \<Longrightarrow> recipes_find E n = Return r \<Longrightarrow>
        P (visit n s) (Raise e) s2 \<Longrightarrow> P s (Raise e) s2"
    and already: "\<And>n s r s2. n \<notin> visited s \<Longrightarrow> recipes_find E n = Return r \<Longrightarrow>
        install_deps E (deps r) (visit n s) = (Return (), s2) \<Longrightarrow>
        P (visit n s) (Return ()) s2 \<Longrightarrow> n \<in> dom (db_data s2) \<Longrightarrow> P s (Return ()) s2"
    and build: "\<And>n s r s2 r' s'. n \<notin> visited s \<Longrightarrow> recipes_find E n = Return r \<Longrightarrow>
        install_deps E (deps r) (visit n s) = (Return (), s2) \<Longrightarrow>
        P (visit n s) (Return ()) s2 \<Longrightarrow> n \<notin> dom (db_data s2) \<Longrightarrow>
        build_and_install E r s2 = (r', s') \<Longrightarrow> P s r' s'"
  shows "P s (fst (install_with_deps E n s)) (snd (install_with_deps E n s))"
    and "P s (fst (install_deps E ds s)) (snd (install_deps E ds s))"
proof -
  have "E' = E \<longrightarrow> P s (fst (install_with_deps E' n s)) (snd (install_with_deps E' n s))"
    and "E' = E \<longrightarrow> P s (fst (install_deps E' ds s)) (snd (install_deps E' ds s))" for E'
  proof (induction E' n s and E' ds s rule: install_with_deps_install_deps.induct)
    case (1 E' n s)
    show ?case
    proof
      assume E: "E' = E"
      show "P s (fst (install_with_deps E' n s)) (snd (install_with_deps E' n s))"
      proof (cases "n \<in> visited s")
        case True
        then show ?thesis by (simp add: iwd_visited refl del: install_with_deps.simps)
      next
        case nv: False
        show ?thesis
        proof (cases "recipes_find E n")
          case (Raise e)
          show ?thesis using notfound[OF nv Raise] iwd_notfound[OF nv Raise] E by simp
        next
          case (Return r)
          obtain r2 s2 where d: "install_deps E (deps r) (visit n s) = (r2, s2)"
            by (cases "install_deps E (deps r) (visit n s)")
          have ih: "P (visit n s) r2 s2"
            using 1[OF nv Return[folded E]] d E by (simp add: visit_def)
          show ?thesis
          proof (cases r2)
            case (Raise e)
            with d ih iwd_deps_fail[OF nv Return] depsfail[OF nv Return] E show ?thesis by simp
          next
            case Ret: (Return u)
            from d Ret have d': "install_deps E (deps r) (visit n s) = (Return (), s2)" by simp
            show ?thesis
            proof (cases "n \<in> dom (db_data s2)")
              case True
              with d ih Ret iwd_already[OF nv Return] already[OF nv Return d'] E
              show ?thesis by simp
            next
              case False
              obtain r' s' where b: "build_and_install E r s2 = (r', s')"
                by (cases "build_and_install E r s2")
              from iwd_build[OF nv Return d' False] b
              have "install_with_deps E n s = (r', s')" by simp
              moreover have "P s r' s'" using build[OF nv Return d' _ False b] ih Ret by simp
              ultimately show ?thesis using E by simp
            qed
          qed
        qed
      qed
    qed
  next
    case (2 E' s)
    show ?case by (simp add: refl)
  next
    case (3 E' d ds s)
    show ?case
    proof
      assume E: "E' = E"
      show "P s (fst (install_deps E' (d # ds) s)) (snd (install_deps E' (d # ds) s))"
      proof (cases "d \<in> dom (db_data s)")
        case True
        with 3(3) E show ?thesis by (simp del: install_with_deps.simps)
      next
        case nd: False
        obtain r1 s1 where a: "install_with_deps E d s = (r1, s1)"
          by (cases "install_with_deps E d s")
        have ih1: "P s r1 s1" using 3(1)[OF nd] a E by simp
        show ?thesis
        proof (cases r1)
          case (Raise e)
          with a ih1 ideps_fail[OF nd] E show ?thesis by simp
        next
          case (Return u)
          have "P s1 (fst (install_deps E ds s1)) (snd (install_deps E ds s1))"
            using 3(2)[OF nd a[symmetric, folded E] Return] E by simp
          moreover have "P s (Return ()) s1" using ih1 Return by simp
          ultimately have "P s (fst (install_deps E ds s1)) (snd (install_deps E ds s1))"
            by (rule seq[rotated])
          moreover have "install_deps E (d # ds) s = install_deps E ds s1"
            using ideps_next[OF nd] a Return by simp
          ultimately show ?thesis using E by simp
        qed
      qed
    qed
  qed
  then show "P s (fst (install_with_deps E n s)) (snd (install_with_deps E n s))"
    and "P s (fst (install_deps E ds s)) (snd (install_deps E ds s))" by simp_all
qed

section \<open>What an installation changes\<close>

lemma unpacked_first_append:
  assumes a: "unpacked_first e1" and b: "unpacked_first e2"
  shows "unpacked_first (e1 @ e2)"
  unfolding unpacked_first_def
proof (intro allI impI)
  fix j n
  assume j: "j < length (e1 @ e2)" and r: "(e1 @ e2) ! j = Record n"
  show "\<exists>i<j. (e1 @ e2) ! i = Unpacked n"
  proof (cases "j < length e1")
    case True
    with r have "e1 ! j = Record n" by (simp add: nth_append)
    with a True obtain i where "i < j" "e1 ! i = Unpacked n"
      unfolding unpacked_first_def by blast
    with True have "i < j \<and> (e1 @ e2) ! i = Unpacked n" by (simp add: nth_append)
    then show ?thesis by blast
  next
    case False
    with j r have "j - length e1 < length e2" "e2 ! (j - length e1) = Record n"
      by (simp_all add: nth_append)
    with b obtain i where i: "i < j - length e1" "e2 ! i = Unpacked n"
      unfolding unpacked_first_def by blast
    then have "length e1 + i < j \<and> (e1 @ e2) ! (length e1 + i) = Unpacked n"
      using False by (simp add: nth_append)
    then show ?thesis by blast
  qed
qed

lemma pre_events_no_record: "list_all (pre_event nm) evs \<Longrightarrow> Record n \<notin> set evs"
  by (induction evs) auto

lemma pre_events_no_save: "list_all (pre_event nm) evs \<Longrightarrow> Save \<notin> set evs"
  by (induction evs) auto

lemma pre_events_unpacked_first: "list_all (pre_event nm) evs \<Longrightarrow> unpacked_first evs"
  unfolding unpacked_first_def using pre_events_no_record nth_mem by metis

lemma grew_refl: "grew s [] s"
  by (simp add: grew_def unpacked_first_def)

lemma grew_trans:
  assumes "grew s e1 s1" and "grew s1 e2 s2"
  shows "grew s (e1 @ e2) s2"
proof -
  have "unpacked_first (e1 @ e2)"
    using assms unpacked_first_append by (simp add: grew_def)
  moreover have "\<forall>f. prefix (log_content s f) (log_content s2 f)"
    using assms prefix_order.trans unfolding grew_def by blast
  moreover have "visited s \<subseteq> visited s2" using assms unfolding grew_def by blast
  moreover have "\<forall>n. (db_data s2 n \<noteq> None) = (db_data s n \<noteq> None \<or> Record n \<in> set (e1 @ e2))"
    using assms unfolding grew_def by auto
  moreover have "Save \<notin> set (e1 @ e2) \<longrightarrow> db_file s2 = db_file s"
    using assms unfolding grew_def by auto
  moreover have "trace s2 = trace s @ e1 @ e2" using assms unfolding grew_def by simp
  ultimately show ?thesis unfolding grew_def by simp
qed

lemma steps_grew: "steps nm evs s s' \<Longrightarrow> grew s evs s'"
  unfolding steps_def grew_def
  using pre_events_no_record pre_events_unpacked_first by auto

lemma grew_visit: "grew s [] (visit n s)"
  by (auto simp: grew_def visit_def unpacked_first_def log_content_def)

lemma grew_from_visit: "grew (visit n s) evs s' \<Longrightarrow> grew s evs s'"
  using grew_trans[OF grew_visit] by fastforce

lemma unpacked_first_record:
  assumes u: "Unpacked nm \<in> set e1" and p: "list_all (pre_event nm) e1"
  shows "unpacked_first (e1 @ [Record nm, Save])"
  unfolding unpacked_first_def
proof (intro allI impI)
  fix j n
  assume j: "j < length (e1 @ [Record nm, Save])"
    and r: "(e1 @ [Record nm, Save]) ! j = Record n"
  from u obtain i where i: "i < length e1" "e1 ! i = Unpacked nm"
    by (auto simp: in_set_conv_nth)
  have "\<not> j < length e1"
  proof
    assume jl: "j < length e1"
    with r have "e1 ! j = Record n" by (simp add: nth_append)
    with nth_mem[OF jl] have "Record n \<in> set e1" by simp
    with pre_events_no_record[OF p] show False by blast
  qed
  moreover have "j \<noteq> Suc (length e1)" using r by (auto simp: nth_append)
  ultimately have je: "j = length e1" using j by simp
  with r have "n = nm" by (simp add: nth_append)
  with i je have "i < j \<and> (e1 @ [Record nm, Save]) ! i = Unpacked n" by (simp add: nth_append)
  then show "\<exists>i<j. (e1 @ [Record nm, Save]) ! i = Unpacked n" by blast
qed

lemma record_save_grew:
  assumes st: "steps nm e1 s s1" and u: "Unpacked nm \<in> set e1"
  shows "grew s (e1 @ [Record nm, Save]) (snd (db_save E (db_put nm m s1)))"
proof -
  have p: "list_all (pre_event nm) e1" using st by (simp add: steps_def)
  have uf: "unpacked_first (e1 @ [Record nm, Save])" using u p by (rule unpacked_first_record)
  have nr: "\<And>n. Record n \<notin> set e1" using pre_events_no_record[OF p] .
  let ?s' = "snd (db_save E (db_put nm m s1))"
  have "trace ?s' = trace s @ e1 @ [Record nm, Save]"
    using st by (simp add: db_save_def Let_def db_put_def emit_def steps_def)
  moreover have "visited s \<subseteq> visited ?s'"
    using st by (simp add: db_save_def Let_def db_put_def emit_def steps_def)
  moreover have "\<forall>n. (db_data ?s' n \<noteq> None) =
      (db_data s n \<noteq> None \<or> Record n \<in> set (e1 @ [Record nm, Save]))"
    using st nr by (auto simp: db_save_def Let_def db_put_def emit_def steps_def)
  moreover have "\<forall>f. prefix (log_content s f) (log_content ?s' f)"
    using st by (simp add: db_save_def Let_def db_put_def emit_def steps_def log_content_def)
  ultimately show ?thesis using uf unfolding grew_def by simp
qed

lemma build_grew: "\<exists>evs. grew s evs (snd (build_and_install E rc s))"
  using build_and_install_built[of E rc s]
proof (cases rule: builtE)
  case (raised evs e)
  then show ?thesis using steps_grew by blast
next
  case (recorded evs s1 m)
  then show ?thesis using record_save_grew[OF recorded(1,2), of E m] by auto
qed

lemma install_grew:
  "\<exists>evs. grew s evs (snd (install_with_deps E n s))"
  "\<exists>evs. grew s evs (snd (install_deps E ds s))"
proof -
  let ?P = "\<lambda>s (r :: unit result) s'. \<exists>evs. grew s evs s'"
  have "?P s (fst (install_with_deps E n s)) (snd (install_with_deps E n s))"
    and "?P s (fst (install_deps E ds s)) (snd (install_deps E ds s))"
  proof (induction rule: install_rule[where P = ?P and E = E])
    case (1 s)
    show ?case using grew_refl by blast
  next
    case (2 s s1 r s')
    then show ?case using grew_trans by blast
  next
    case (3 n s e)
    show ?case using grew_visit by blast
  next
    case (4 n s r e s2)
    then show ?case using grew_from_visit by blast
  next
    case (5 n s r s2)
    then show ?case using grew_from_visit by blast
  next
    case (6 n s r s2 r' s')
    from 6(4) obtain e1 where "grew s e1 s2" using grew_from_visit by blast
    moreover obtain e2 where "grew s2 e2 s'" using build_grew[of s2 E r] 6(6) by auto
    ultimately show ?case using grew_trans by blast
  qed
  then show "\<exists>evs. grew s evs (snd (install_with_deps E n s))"
    "\<exists>evs. grew s evs (snd (install_deps E ds s))" by simp_all
qed

lemma well_named_find: "well_named E \<Longrightarrow> recipes_find E n = Return r \<Longrightarrow> name r = n"
  by (auto simp: well_named_def recipes_find_def list_all_iff split: option.splits if_splits
           dest!: map_of_SomeD)

lemma pre_events_build_cmd: "list_all (pre_event nm) evs \<Longrightarrow> BuildCmd m c \<in> set evs \<Longrightarrow> m = nm"
  by (induction evs) auto

lemma record_save_state:
  "visited (snd (db_save E (db_put nm m s))) = visited s"
  "db_data (snd (db_save E (db_put nm m s))) = (db_data s)(nm \<mapsto> m)"
  "trace (snd (db_save E (db_put nm m s))) = trace s @ [Record nm, Save]"
  by (simp_all add: db_save_def db_put_def emit_def Let_def)

lemma record_save_return:
  "fst (db_save E (db_put nm m s)) = Return () \<or> (\<exists>e. fst (db_save E (db_put nm m s)) = Raise e)"
  by (simp add: db_save_def Let_def)

text \<open>The effect of one pipeline, in the two forms it can take.\<close>

lemma build_cases:
  obtains (raised) evs e where "build_and_install E rc s = (Raise e, snd (build_and_install E rc s))"
      "steps (name rc) evs s (snd (build_and_install E rc s))"
    | (recorded) evs s1 m where "steps (name rc) evs s s1" "Unpacked (name rc) \<in> set evs"
      "build_and_install E rc s = db_save E (db_put (name rc) m s1)"
  using build_and_install_built[of E rc s] by (cases rule: builtE) auto

lemma build_return_recorded:
  assumes "build_and_install E rc s = (Return u, s')"
  shows "name rc \<in> dom (db_data s')"
proof (cases E rc s rule: build_cases)
  case (raised evs e)
  with assms show ?thesis by simp
next
  case (recorded evs s1 m)
  with assms have "s' = snd (db_save E (db_put (name rc) m s1))" by simp
  then show ?thesis by (simp add: record_save_state)
qed

lemma build_fresh:
  assumes wn: "name rc = n" and nv: "n \<notin> visited s0" and vis: "n \<in> visited s"
    and sub: "visited s0 \<subseteq> visited s"
    and b: "build_and_install E rc s = (r', s')"
  shows "visited s' = visited s \<and> dom (db_data s) \<subseteq> dom (db_data s') \<and>
     (\<exists>evs. trace s' = trace s @ evs \<and>
        (\<forall>m c. BuildCmd m c \<in> set evs \<longrightarrow> m \<in> visited s' \<and> m \<notin> visited s0)) \<and>
     (r' = Return () \<longrightarrow> n \<in> dom (db_data s'))"
proof (cases E rc s rule: build_cases)
  case (raised evs e)
  with b have s': "steps n evs s s'" and r': "r' = Raise e" using wn by auto
  have "\<forall>m c. BuildCmd m c \<in> set evs \<longrightarrow> m \<in> visited s' \<and> m \<notin> visited s0"
    using s' pre_events_build_cmd nv vis unfolding steps_def by blast
  with s' r' show ?thesis unfolding steps_def by auto
next
  case (recorded evs s1 m)
  with b have s': "s' = snd (db_save E (db_put n m s1))" using wn by simp
  have st: "steps n evs s s1" using recorded(1) wn by simp
  have bc: "\<forall>m c. BuildCmd m c \<in> set (evs @ [Record n, Save]) \<longrightarrow> m \<in> visited s' \<and> m \<notin> visited s0"
    using st pre_events_build_cmd nv vis s' unfolding steps_def
    by (auto simp: record_save_state)
  have "trace s' = trace s @ evs @ [Record n, Save]"
    using st s' by (simp add: record_save_state steps_def)
  with bc have "\<exists>evs. trace s' = trace s @ evs \<and>
        (\<forall>m c. BuildCmd m c \<in> set evs \<longrightarrow> m \<in> visited s' \<and> m \<notin> visited s0)" by blast
  moreover have "visited s' = visited s" "dom (db_data s) \<subseteq> dom (db_data s')" "n \<in> dom (db_data s')"
    using st s' by (auto simp: record_save_state steps_def)
  ultimately show ?thesis by simp
qed

lemma fresh_builds_seq:
  assumes a: "fresh_builds s (Return ()) s1" and b: "fresh_builds s1 r s'"
  shows "fresh_builds s r s'"
proof -
  from a obtain e1 where e1: "trace s1 = trace s @ e1"
    "\<forall>m c. BuildCmd m c \<in> set e1 \<longrightarrow> m \<in> visited s1 \<and> m \<notin> visited s"
    unfolding fresh_builds_def by blast
  from b obtain e2 where e2: "trace s' = trace s1 @ e2"
    "\<forall>m c. BuildCmd m c \<in> set e2 \<longrightarrow> m \<in> visited s' \<and> m \<notin> visited s1"
    unfolding fresh_builds_def by blast
  have v: "visited s \<subseteq> visited s1" "visited s1 \<subseteq> visited s'"
    and d: "dom (db_data s) \<subseteq> dom (db_data s1)" "dom (db_data s1) \<subseteq> dom (db_data s')"
    and q1: "visited s1 - visited s \<subseteq> dom (db_data s1)"
    using a b unfolding fresh_builds_def by auto
  have "trace s' = trace s @ (e1 @ e2)" using e1 e2 by simp
  moreover have "\<forall>m c. BuildCmd m c \<in> set (e1 @ e2) \<longrightarrow> m \<in> visited s' \<and> m \<notin> visited s"
    using e1(2) e2(2) v by auto
  ultimately have ev: "\<exists>evs. trace s' = trace s @ evs \<and>
      (\<forall>m c. BuildCmd m c \<in> set evs \<longrightarrow> m \<in> visited s' \<and> m \<notin> visited s)" by blast
  have "r = Return () \<longrightarrow> visited s' - visited s \<subseteq> dom (db_data s')"
  proof
    assume "r = Return ()"
    with b have "visited s' - visited s1 \<subseteq> dom (db_data s')" unfolding fresh_builds_def by simp
    with q1 d show "visited s' - visited s \<subseteq> dom (db_data s')" by blast
  qed
  with ev v d show ?thesis unfolding fresh_builds_def by blast
qed

lemma fresh_builds_from_visit:
  assumes "fresh_builds (visit n s) r s2" and "r = Return () \<longrightarrow> n \<in> dom (db_data s2)"
  shows "fresh_builds s r s2"
proof -
  from assms(1) obtain evs where e: "trace s2 = trace s @ evs"
    "\<forall>m c. BuildCmd m c \<in> set evs \<longrightarrow> m \<in> visited s2 \<and> m \<notin> visited s"
    unfolding fresh_builds_def visit_def by auto
  have "visited s \<subseteq> visited s2" "dom (db_data s) \<subseteq> dom (db_data s2)"
    using assms(1) unfolding fresh_builds_def visit_def by auto
  moreover have "r = Return () \<longrightarrow> visited s2 - visited s \<subseteq> dom (db_data s2)"
    using assms unfolding fresh_builds_def visit_def by auto
  ultimately show ?thesis using e unfolding fresh_builds_def by blast
qed

lemma build_fresh_builds:
  assumes wn: "well_named E" and nv: "n \<notin> visited s" and f: "recipes_find E n = Return r"
    and ih: "fresh_builds (visit n s) (Return ()) s2"
    and b: "build_and_install E r s2 = (r', s')"
  shows "fresh_builds s r' s'"
proof -
  have nm: "name r = n" using wn f by (rule well_named_find)
  have sub: "visited (visit n s) \<subseteq> visited s2" using ih unfolding fresh_builds_def by simp
  then have vis: "n \<in> visited s2" and sub0: "visited s \<subseteq> visited s2" by (auto simp: visit_def)
  from build_fresh[OF nm nv vis sub0 b]
  have b: "visited s' = visited s2" "dom (db_data s2) \<subseteq> dom (db_data s')"
    "\<exists>evs. trace s' = trace s2 @ evs \<and>
        (\<forall>m c. BuildCmd m c \<in> set evs \<longrightarrow> m \<in> visited s' \<and> m \<notin> visited s)"
    "r' = Return () \<longrightarrow> n \<in> dom (db_data s')" by auto
  from b(3) obtain e2 where e2: "trace s' = trace s2 @ e2"
    "\<forall>m c. BuildCmd m c \<in> set e2 \<longrightarrow> m \<in> visited s' \<and> m \<notin> visited s" by blast
  from ih obtain e1 where e1: "trace s2 = trace s @ e1"
    "\<forall>m c. BuildCmd m c \<in> set e1 \<longrightarrow> m \<in> visited s2 \<and> m \<notin> visited s"
    unfolding fresh_builds_def visit_def by auto
  have "trace s' = trace s @ (e1 @ e2)" using e1 e2 by simp
  moreover have "\<forall>m c. BuildCmd m c \<in> set (e1 @ e2) \<longrightarrow> m \<in> visited s' \<and> m \<notin> visited s"
    using e1(2) e2(2) b(1) by auto
  ultimately have ev: "\<exists>evs. trace s' = trace s @ evs \<and>
      (\<forall>m c. BuildCmd m c \<in> set evs \<longrightarrow> m \<in> visited s' \<and> m \<notin> visited s)" by blast
  have "dom (db_data s) \<subseteq> dom (db_data s2)"
    using ih unfolding fresh_builds_def visit_def by simp
  then have d: "dom (db_data s) \<subseteq> dom (db_data s')" using b(2) by (rule subset_trans)
  have "r' = Return () \<longrightarrow> visited s' - visited s \<subseteq> dom (db_data s')"
  proof
    assume "r' = Return ()"
    with b(4) have "n \<in> dom (db_data s')" by simp
    moreover have "visited s2 - insert n (visited s) \<subseteq> dom (db_data s2)"
      using ih unfolding fresh_builds_def visit_def by simp
    ultimately show "visited s' - visited s \<subseteq> dom (db_data s')" using b(1,2) by blast
  qed
  with ev d sub0 b(1) show ?thesis unfolding fresh_builds_def by simp
qed

lemma install_fresh_builds:
  assumes wn: "well_named E"
  shows "fresh_builds s (fst (install_with_deps E n s)) (snd (install_with_deps E n s))"
    and "fresh_builds s (fst (install_deps E ds s)) (snd (install_deps E ds s))"
proof -
  have p1: "\<And>s. fresh_builds s (Return ()) s" by (simp add: fresh_builds_def)
  have p2: "\<And>s s1 r s'. fresh_builds s (Return ()) s1 \<Longrightarrow> fresh_builds s1 r s' \<Longrightarrow>
      fresh_builds s r s'" by (rule fresh_builds_seq)
  have p3: "\<And>n s e. n \<notin> visited s \<Longrightarrow> recipes_find E n = Raise e \<Longrightarrow>
      fresh_builds s (Raise e) (visit n s)" by (auto simp: fresh_builds_def visit_def)
  have p4: "\<And>n s r e s2. n \<notin> visited s \<Longrightarrow> recipes_find E n = Return r \<Longrightarrow>
      fresh_builds (visit n s) (Raise e) s2 \<Longrightarrow> fresh_builds s (Raise e) s2"
    by (simp add: fresh_builds_from_visit)
  have p5: "\<And>n s r s2. n \<notin> visited s \<Longrightarrow> recipes_find E n = Return r \<Longrightarrow>
      install_deps E (deps r) (visit n s) = (Return (), s2) \<Longrightarrow>
      fresh_builds (visit n s) (Return ()) s2 \<Longrightarrow> n \<in> dom (db_data s2) \<Longrightarrow>
      fresh_builds s (Return ()) s2"
    by (simp add: fresh_builds_from_visit)
  have p6: "\<And>n s r s2 r' s'. n \<notin> visited s \<Longrightarrow> recipes_find E n = Return r \<Longrightarrow>
      install_deps E (deps r) (visit n s) = (Return (), s2) \<Longrightarrow>
      fresh_builds (visit n s) (Return ()) s2 \<Longrightarrow> n \<notin> dom (db_data s2) \<Longrightarrow>
      build_and_install E r s2 = (r', s') \<Longrightarrow> fresh_builds s r' s'"
    using build_fresh_builds[OF wn] by blast
  show "fresh_builds s (fst (install_with_deps E n s)) (snd (install_with_deps E n s))"
    by (rule install_rule(1)[where P = fresh_builds and E = E, OF p1 p2 p3 p4 p5 p6])
  show "fresh_builds s (fst (install_deps E ds s)) (snd (install_deps E ds s))"
    by (rule install_rule(2)[where P = fresh_builds and E = E, OF p1 p2 p3 p4 p5 p6])
qed

lemma install_return_recorded:
  assumes wn: "well_named E" and r: "install_with_deps E n s = (Return u, s')"
    and nv: "n \<notin> visited s"
  shows "n \<in> dom (db_data s')"
proof (cases "recipes_find E n")
  case (Raise e)
  from iwd_notfound[OF nv Raise] r show ?thesis by simp
next
  case (Return rc)
  obtain r2 s2 where d: "install_deps E (deps rc) (visit n s) = (r2, s2)"
    by (cases "install_deps E (deps rc) (visit n s)")
  show ?thesis
  proof (cases r2)
    case (Raise e)
    with iwd_deps_fail[OF nv Return] d r show ?thesis by simp
  next
    case Ret: (Return v)
    show ?thesis
    proof (cases "n \<in> dom (db_data s2)")
      case True
      with iwd_already[OF nv Return] d Ret r show ?thesis by simp
    next
      case False
      with iwd_build[OF nv Return] d Ret r have "build_and_install E rc s2 = (Return u, s')"
        by simp
      from build_return_recorded[OF this] well_named_find[OF wn Return] show ?thesis by simp
    qed
  qed
qed

lemma install_deps_return_recorded:
  assumes wn: "well_named E"
  shows "install_deps E ds s = (Return u, s') \<Longrightarrow>
    \<forall>d\<in>set ds. d \<in> dom (db_data s') \<or> d \<in> visited s"
proof (induction ds arbitrary: s)
  case Nil
  show ?case by simp
next
  case (Cons d ds)
  have mono: "dom (db_data t) \<subseteq> dom (db_data (snd (install_deps E ds t)))" for t
    using install_fresh_builds(2)[OF wn, of t ds] unfolding fresh_builds_def by simp
  show ?case
  proof (cases "d \<in> dom (db_data s)")
    case True
    with Cons.prems have r: "install_deps E ds s = (Return u, s')" by (simp add: ideps_skip)
    from Cons.IH[OF r] have "\<forall>x\<in>set ds. x \<in> dom (db_data s') \<or> x \<in> visited s" .
    moreover have "d \<in> dom (db_data s')" using True mono[of s] r by auto
    ultimately show ?thesis by simp
  next
    case nd: False
    obtain r1 s1 where a: "install_with_deps E d s = (r1, s1)"
      by (cases "install_with_deps E d s")
    show ?thesis
    proof (cases r1)
      case (Raise e)
      with ideps_fail[OF nd] a Cons.prems show ?thesis by simp
    next
      case (Return v)
      with ideps_next[OF nd] a Cons.prems have r: "install_deps E ds s1 = (Return u, s')"
        by simp
      have fb: "fresh_builds s (Return ()) s1"
        using install_fresh_builds(1)[OF wn, of s d] a Return by simp
      then have new: "visited s1 - visited s \<subseteq> dom (db_data s1)"
        unfolding fresh_builds_def by simp
      have m1: "dom (db_data s1) \<subseteq> dom (db_data s')" using mono[of s1] r by simp
      have "d \<in> dom (db_data s') \<or> d \<in> visited s"
      proof (cases "d \<in> visited s")
        case True
        then show ?thesis by simp
      next
        case False
        from install_return_recorded[OF wn _ False] a Return have "d \<in> dom (db_data s1)"
          by simp
        with m1 show ?thesis by blast
      qed
      moreover have "\<forall>x\<in>set ds. x \<in> dom (db_data s') \<or> x \<in> visited s"
      proof
        fix x assume "x \<in> set ds"
        with Cons.IH[OF r] have "x \<in> dom (db_data s') \<or> x \<in> visited s1" by blast
        with new m1 show "x \<in> dom (db_data s') \<or> x \<in> visited s" by blast
      qed
      ultimately show ?thesis by simp
    qed
  qed
qed

lemma install_deps_all_present:
  "\<forall>d\<in>set ds. d \<in> dom (db_data s) \<Longrightarrow> install_deps E ds s = (Return (), s)"
  by (induction ds) (simp_all del: install_with_deps.simps)

lemma install_deps_skip_prefix:
  "\<forall>p\<in>set pre. p \<in> dom (db_data s) \<Longrightarrow> install_deps E (pre @ rest) s = install_deps E rest s"
  by (induction pre) (simp_all del: install_with_deps.simps)

lemma install_unfold: "install E n s = install_with_deps E n (s\<lparr>visited := {}\<rparr>)"
  by (simp add: install_def)

lemma visit_empty: "visit n (s\<lparr>visited := {}\<rparr>) = s\<lparr>visited := {n}\<rparr>"
  by (simp add: visit_def)

lemma build_return_db:
  assumes "build_and_install E rc s = (Return u, s')"
  shows "\<exists>m. db_data s' = (db_data s)(name rc \<mapsto> m)"
proof (cases E rc s rule: build_cases)
  case (raised evs e)
  with assms show ?thesis by simp
next
  case (recorded evs s1 m)
  with assms have "s' = snd (db_save E (db_put (name rc) m s1))" by simp
  moreover have "db_data s1 = db_data s" using recorded(1) by (simp add: steps_def)
  ultimately show ?thesis by (auto simp: record_save_state)
qed

lemma fresh_builds_events:
  assumes "fresh_builds s r s'" and "trace s' = trace s @ evs" and "m \<in> visited s"
  shows "BuildCmd m c \<notin> set evs"
  using assms unfolding fresh_builds_def by auto

lemma grew_recorded:
  assumes "grew s evs s'" and "db_data s d = None" and "d \<in> dom (db_data s')"
  shows "\<exists>j<length evs. evs ! j = Record d"
proof -
  have "Record d \<in> set evs" using assms unfolding grew_def by (auto simp: domIff)
  then show ?thesis by (auto simp: in_set_conv_nth)
qed

lemma build_effect:
  assumes "build_and_install E rc s = (r, s')"
  shows "visited s' = visited s \<and> dom (db_data s) \<subseteq> dom (db_data s') \<and>
         dom (db_data s') \<subseteq> insert (name rc) (dom (db_data s))"
proof (cases E rc s rule: build_cases)
  case (raised evs e)
  with assms have "steps (name rc) evs s s'" by simp
  then show ?thesis unfolding steps_def by auto
next
  case (recorded evs s1 m)
  with assms have "s' = snd (db_save E (db_put (name rc) m s1))" by simp
  with recorded(1) show ?thesis unfolding steps_def by (auto simp: record_save_state)
qed

lemma install_new_records:
  assumes wn: "well_named E"
  shows "new_records s (fst (install_with_deps E n s)) (snd (install_with_deps E n s))"
    and "new_records s (fst (install_deps E ds s)) (snd (install_deps E ds s))"
proof -
  have p1: "\<And>s. new_records s (Return ()) s" by (simp add: new_records_def)
  have p2: "\<And>s s1 r s'. new_records s (Return ()) s1 \<Longrightarrow> new_records s1 r s' \<Longrightarrow>
      new_records s r s'" unfolding new_records_def by blast
  have p3: "\<And>n s e. n \<notin> visited s \<Longrightarrow> recipes_find E n = Raise e \<Longrightarrow>
      new_records s (Raise e) (visit n s)" by (auto simp: new_records_def visit_def)
  have v: "\<And>n s r s2. new_records (visit n s) r s2 \<Longrightarrow> new_records s r s2"
    unfolding new_records_def visit_def by auto
  have p4: "\<And>n s r e s2. n \<notin> visited s \<Longrightarrow> recipes_find E n = Return r \<Longrightarrow>
      new_records (visit n s) (Raise e) s2 \<Longrightarrow> new_records s (Raise e) s2" by (rule v)
  have p5: "\<And>n s r s2. n \<notin> visited s \<Longrightarrow> recipes_find E n = Return r \<Longrightarrow>
      install_deps E (deps r) (visit n s) = (Return (), s2) \<Longrightarrow>
      new_records (visit n s) (Return ()) s2 \<Longrightarrow> n \<in> dom (db_data s2) \<Longrightarrow>
      new_records s (Return ()) s2" by (rule v)
  have p6: "new_records s r' s'"
    if nv: "n \<notin> visited s" and f: "recipes_find E n = Return r"
      and "install_deps E (deps r) (visit n s) = (Return (), s2)"
      and ih: "new_records (visit n s) (Return ()) s2" and "n \<notin> dom (db_data s2)"
      and b: "build_and_install E r s2 = (r', s')" for n s r s2 r' s'
  proof -
    have nm: "name r = n" using well_named_find[OF wn f] .
    from build_effect[OF b] nm have e: "visited s' = visited s2"
      "dom (db_data s') \<subseteq> insert n (dom (db_data s2))" by simp_all
    from ih have "insert n (visited s) \<subseteq> visited s2"
      "dom (db_data s2) \<subseteq> dom (db_data s) \<union> (visited s2 - insert n (visited s))"
      unfolding new_records_def visit_def by simp_all
    with e nv show ?thesis unfolding new_records_def by auto
  qed
  show "new_records s (fst (install_with_deps E n s)) (snd (install_with_deps E n s))"
    by (rule install_rule(1)[where P = new_records and E = E, OF p1 p2 p3 p4 p5 p6])
  show "new_records s (fst (install_deps E ds s)) (snd (install_deps E ds s))"
    by (rule install_rule(2)[where P = new_records and E = E, OF p1 p2 p3 p4 p5 p6])
qed

lemma install_visits: "n \<in> visited (snd (install_with_deps E n s))"
proof (cases "n \<in> visited s")
  case True
  then show ?thesis by (simp add: iwd_visited del: install_with_deps.simps)
next
  case False
  obtain evs where "grew (visit n s) evs (snd (install_with_deps E n (visit n s)))"
    using install_grew(1) by blast
  have "n \<in> visited (visit n s)" by (simp add: visit_def)
  show ?thesis
  proof (cases "recipes_find E n")
    case (Raise e)
    from iwd_notfound[OF False Raise] show ?thesis by (simp add: visit_def)
  next
    case (Return r)
    obtain r2 s2 where d: "install_deps E (deps r) (visit n s) = (r2, s2)"
      by (cases "install_deps E (deps r) (visit n s)")
    obtain e1 where "grew (visit n s) e1 s2" using install_grew(2)[of "visit n s" E "deps r"] d by auto
    then have n2: "n \<in> visited s2" unfolding grew_def visit_def by auto
    show ?thesis
    proof (cases r2)
      case (Raise e)
      with iwd_deps_fail[OF False Return] d n2 show ?thesis by simp
    next
      case Ret: (Return u)
      show ?thesis
      proof (cases "n \<in> dom (db_data s2)")
        case True
        with iwd_already[OF False Return] d Ret n2 show ?thesis by simp
      next
        case nd: False
        obtain r' s' where b: "build_and_install E r s2 = (r', s')"
          by (cases "build_and_install E r s2")
        from build_effect[OF b] n2 have "n \<in> visited s'" by simp
        with iwd_build[OF False Return _ nd] d Ret b show ?thesis by simp
      qed
    qed
  qed
qed

lemma install_deps_return_seen:
  "install_deps E ds s = (Return u, s') \<Longrightarrow> \<forall>b\<in>set ds. b \<in> visited s' \<or> b \<in> dom (db_data s')"
proof (induction ds arbitrary: s)
  case Nil
  show ?case by simp
next
  case (Cons d ds)
  have mono: "visited t \<subseteq> visited (snd (install_deps E ds t)) \<and>
      dom (db_data t) \<subseteq> dom (db_data (snd (install_deps E ds t)))" for t
  proof -
    obtain evs where "grew t evs (snd (install_deps E ds t))" using install_grew(2) by blast
    then show ?thesis unfolding grew_def by (auto simp: domIff)
  qed
  show ?case
  proof (cases "d \<in> dom (db_data s)")
    case True
    with Cons.prems have r: "install_deps E ds s = (Return u, s')" by (simp add: ideps_skip)
    from Cons.IH[OF r] True mono[of s] r show ?thesis by auto
  next
    case nd: False
    obtain r1 s1 where a: "install_with_deps E d s = (r1, s1)"
      by (cases "install_with_deps E d s")
    show ?thesis
    proof (cases r1)
      case (Raise e)
      with ideps_fail[OF nd] a Cons.prems show ?thesis by simp
    next
      case (Return v)
      with ideps_next[OF nd] a Cons.prems have r: "install_deps E ds s1 = (Return u, s')"
        by simp
      have "d \<in> visited s1" using install_visits[of d E s] a by simp
      with mono[of s1] r have "d \<in> visited s'" by auto
      with Cons.IH[OF r] show ?thesis by simp
    qed
  qed
qed

lemma install_deps_seen:
  "deps_seen E s (fst (install_with_deps E n s)) (snd (install_with_deps E n s))"
  "deps_seen E s (fst (install_deps E ds s)) (snd (install_deps E ds s))"
proof -
  have p1: "\<And>s. deps_seen E s (Return ()) s" by (simp add: deps_seen_def)
  have p2: "deps_seen E s r s'"
    if a: "deps_seen E s (Return ()) s1" and b: "deps_seen E s1 r s'" for s s1 r s'
  proof -
    from a b have m: "visited s \<subseteq> visited s1" "visited s1 \<subseteq> visited s'"
      "dom (db_data s) \<subseteq> dom (db_data s1)" "dom (db_data s1) \<subseteq> dom (db_data s')"
      unfolding deps_seen_def by simp_all
    have "y \<in> visited s' \<or> y \<in> dom (db_data s')"
      if r: "r = Return ()" and x: "x \<in> visited s' - visited s" and d: "dep_of E x y" for x y
    proof (cases "x \<in> visited s1")
      case True
      with x a d have "y \<in> visited s1 \<or> y \<in> dom (db_data s1)" unfolding deps_seen_def by blast
      with m show ?thesis by blast
    next
      case False
      with x b r d show ?thesis unfolding deps_seen_def by blast
    qed
    with m show ?thesis unfolding deps_seen_def by blast
  qed
  have p3: "\<And>n s e. n \<notin> visited s \<Longrightarrow> recipes_find E n = Raise e \<Longrightarrow>
      deps_seen E s (Raise e) (visit n s)" by (auto simp: deps_seen_def visit_def)
  have p4: "\<And>n s r e s2. n \<notin> visited s \<Longrightarrow> recipes_find E n = Return r \<Longrightarrow>
      deps_seen E (visit n s) (Raise e) s2 \<Longrightarrow> deps_seen E s (Raise e) s2"
    by (auto simp: deps_seen_def visit_def)
  have own: "\<forall>a\<in>visited s2 - visited s. \<forall>b. dep_of E a b \<longrightarrow>
            b \<in> visited s2 \<or> b \<in> dom (db_data s2)"
    if f: "recipes_find E n = Return r"
      and d: "install_deps E (deps r) (visit n s) = (Return (), s2)"
      and ih: "deps_seen E (visit n s) (Return ()) s2" for n s r s2
  proof (intro ballI allI impI)
    fix a b assume a: "a \<in> visited s2 - visited s" and ab: "dep_of E a b"
    show "b \<in> visited s2 \<or> b \<in> dom (db_data s2)"
    proof (cases "a = n")
      case True
      with ab f have "b \<in> set (deps r)" by (simp add: dep_of_def)
      with install_deps_return_seen[OF d] show ?thesis by blast
    next
      case False
      with a have "a \<in> visited s2 - visited (visit n s)" by (simp add: visit_def)
      with ih ab show ?thesis unfolding deps_seen_def by blast
    qed
  qed
  have p5: "deps_seen E s (Return ()) s2"
    if "n \<notin> visited s" and f: "recipes_find E n = Return r"
      and d: "install_deps E (deps r) (visit n s) = (Return (), s2)"
      and ih: "deps_seen E (visit n s) (Return ()) s2" and "n \<in> dom (db_data s2)" for n s r s2
  proof -
    from ih have "visited s \<subseteq> visited s2" "dom (db_data s) \<subseteq> dom (db_data s2)"
      unfolding deps_seen_def visit_def by auto
    with own[OF f d ih] show ?thesis unfolding deps_seen_def by blast
  qed
  have p6: "deps_seen E s r' s'"
    if "n \<notin> visited s" and f: "recipes_find E n = Return r"
      and d: "install_deps E (deps r) (visit n s) = (Return (), s2)"
      and ih: "deps_seen E (visit n s) (Return ()) s2" and "n \<notin> dom (db_data s2)"
      and b: "build_and_install E r s2 = (r', s')" for n s r s2 r' s'
  proof -
    from ih have m: "visited s \<subseteq> visited s2" "dom (db_data s) \<subseteq> dom (db_data s2)"
      unfolding deps_seen_def visit_def by auto
    from build_effect[OF b] have e: "visited s' = visited s2"
      "dom (db_data s2) \<subseteq> dom (db_data s')" by simp_all
    from own[OF f d ih] e have "\<forall>a\<in>visited s' - visited s. \<forall>b. dep_of E a b \<longrightarrow>
            b \<in> visited s' \<or> b \<in> dom (db_data s')" by blast
    with m e show ?thesis unfolding deps_seen_def by blast
  qed
  show "deps_seen E s (fst (install_with_deps E n s)) (snd (install_with_deps E n s))"
    by (rule install_rule(1)[where P = "deps_seen E" and E = E, OF p1 p2 p3 p4 p5 p6])
  show "deps_seen E s (fst (install_deps E ds s)) (snd (install_deps E ds s))"
    by (rule install_rule(2)[where P = "deps_seen E" and E = E, OF p1 p2 p3 p4 p5 p6])
qed

lemma install_raised_by:
  "raised_by E s (fst (install_with_deps E n s)) (snd (install_with_deps E n s))"
  "raised_by E s (fst (install_deps E ds s)) (snd (install_deps E ds s))"
proof -
  have p1: "\<And>s. raised_by E s (Return ()) s" by (simp add: raised_by_def)
  have p2: "\<And>s s1 r s'. raised_by E s (Return ()) s1 \<Longrightarrow> raised_by E s1 r s' \<Longrightarrow>
      raised_by E s r s'" by (simp add: raised_by_def)
  have p3: "\<And>n s e. n \<notin> visited s \<Longrightarrow> recipes_find E n = Raise e \<Longrightarrow>
      raised_by E s (Raise e) (visit n s)" by (auto simp: raised_by_def visit_def)
  have p4: "\<And>n s r e s2. n \<notin> visited s \<Longrightarrow> recipes_find E n = Return r \<Longrightarrow>
      raised_by E (visit n s) (Raise e) s2 \<Longrightarrow> raised_by E s (Raise e) s2"
    by (simp add: raised_by_def)
  have p5: "\<And>n s r s2. n \<notin> visited s \<Longrightarrow> recipes_find E n = Return r \<Longrightarrow>
      install_deps E (deps r) (visit n s) = (Return (), s2) \<Longrightarrow>
      raised_by E (visit n s) (Return ()) s2 \<Longrightarrow> n \<in> dom (db_data s2) \<Longrightarrow>
      raised_by E s (Return ()) s2" by (simp add: raised_by_def)
  have p6: "raised_by E s r' s'"
    if "n \<notin> visited s" and f: "recipes_find E n = Return r"
      and d: "install_deps E (deps r) (visit n s) = (Return (), s2)"
      and "raised_by E (visit n s) (Return ()) s2" and "n \<notin> dom (db_data s2)"
      and b: "build_and_install E r s2 = (r', s')" for n s r s2 r' s'
  proof -
    obtain e1 where "grew (visit n s) e1 s2"
      using install_grew(2)[of "visit n s" E "deps r"] d by auto
    then have "n \<in> visited s2" unfolding grew_def visit_def by auto
    with build_effect[OF b] have "n \<in> visited s'" by simp
    with f b show ?thesis unfolding raised_by_def by blast
  qed
  show "raised_by E s (fst (install_with_deps E n s)) (snd (install_with_deps E n s))"
    by (rule install_rule(1)[where P = "raised_by E" and E = E, OF p1 p2 p3 p4 p5 p6])
  show "raised_by E s (fst (install_deps E ds s)) (snd (install_deps E ds s))"
    by (rule install_rule(2)[where P = "raised_by E" and E = E, OF p1 p2 p3 p4 p5 p6])
qed

lemma needed_visited:
  assumes wn: "well_named E" and r: "install E n s = (Return (), s')"
    and nd: "needed E s n m"
  shows "m \<in> visited s'"
  using nd
proof (induction rule: needed.induct)
  case root
  show ?case using install_visits[of n E "s\<lparr>visited := {}\<rparr>"] r by (simp add: install_unfold)
next
  case (dep a b)
  let ?s0 = "s\<lparr>visited := {}\<rparr>"
  from r have run: "install_with_deps E n ?s0 = (Return (), s')" by (simp add: install_unfold)
  have "deps_seen E ?s0 (Return ()) s'" using install_deps_seen(1)[of E ?s0 n] run by simp
  with dep.IH dep.hyps(2) have "b \<in> visited s' \<or> b \<in> dom (db_data s')"
    unfolding deps_seen_def by auto
  moreover have "new_records ?s0 (Return ()) s'"
    using install_new_records(1)[OF wn, of ?s0 n] run by simp
  then have "dom (db_data s') \<subseteq> dom (db_data s) \<union> visited s'"
    unfolding new_records_def by auto
  ultimately show ?case using dep.hyps(3) by (auto simp: domIff)
qed

lemma build_return_saved:
  assumes "build_and_install E rc s = (Return u, s')"
  shows "db_file s' = Content (json_dump E (db_data s'))"
proof (cases E rc s rule: build_cases)
  case (raised evs e)
  with assms show ?thesis by simp
next
  case (recorded evs s1 m)
  with assms have "db_save E (db_put (name rc) m s1) = (Return u, s')" by simp
  then show ?thesis by (auto simp: db_save_def Let_def split: if_splits)
qed

lemma install_saved:
  "saved E s (fst (install_with_deps E n s)) (snd (install_with_deps E n s))"
  "saved E s (fst (install_deps E ds s)) (snd (install_deps E ds s))"
proof -
  have p1: "\<And>s. saved E s (Return ()) s" by (simp add: saved_def)
  have p2: "\<And>s s1 r s'. saved E s (Return ()) s1 \<Longrightarrow> saved E s1 r s' \<Longrightarrow> saved E s r s'"
    by (auto simp: saved_def)
  have p3: "\<And>n s e. n \<notin> visited s \<Longrightarrow> recipes_find E n = Raise e \<Longrightarrow>
      saved E s (Raise e) (visit n s)" by (simp add: saved_def)
  have p4: "\<And>n s r e s2. n \<notin> visited s \<Longrightarrow> recipes_find E n = Return r \<Longrightarrow>
      saved E (visit n s) (Raise e) s2 \<Longrightarrow> saved E s (Raise e) s2" by (simp add: saved_def)
  have p5: "\<And>n s r s2. n \<notin> visited s \<Longrightarrow> recipes_find E n = Return r \<Longrightarrow>
      install_deps E (deps r) (visit n s) = (Return (), s2) \<Longrightarrow>
      saved E (visit n s) (Return ()) s2 \<Longrightarrow> n \<in> dom (db_data s2) \<Longrightarrow>
      saved E s (Return ()) s2" by (simp add: saved_def visit_def)
  have p6: "\<And>n s r s2 r' s'. n \<notin> visited s \<Longrightarrow> recipes_find E n = Return r \<Longrightarrow>
      install_deps E (deps r) (visit n s) = (Return (), s2) \<Longrightarrow>
      saved E (visit n s) (Return ()) s2 \<Longrightarrow> n \<notin> dom (db_data s2) \<Longrightarrow>
      build_and_install E r s2 = (r', s') \<Longrightarrow> saved E s r' s'"
    using build_return_saved[of E] by (auto simp: saved_def)
  show "saved E s (fst (install_with_deps E n s)) (snd (install_with_deps E n s))"
    by (rule install_rule(1)[where P = "saved E" and E = E, OF p1 p2 p3 p4 p5 p6])
  show "saved E s (fst (install_deps E ds s)) (snd (install_deps E ds s))"
    by (rule install_rule(2)[where P = "saved E" and E = E, OF p1 p2 p3 p4 p5 p6])
qed

lemma install_deps_append:
  "install_deps E (pre @ rest) s =
     (case install_deps E pre s of
        (Raise e, s1) \<Rightarrow> (Raise e, s1)
      | (Return u, s1) \<Rightarrow> install_deps E rest s1)"
proof (induction pre arbitrary: s)
  case Nil
  show ?case by simp
next
  case (Cons d pre)
  show ?case
  proof (cases "d \<in> dom (db_data s)")
    case True
    then show ?thesis using Cons.IH[of s] by (simp add: ideps_skip del: install_deps.simps)
  next
    case nd: False
    obtain r1 s1 where a: "install_with_deps E d s = (r1, s1)"
      by (cases "install_with_deps E d s")
    show ?thesis
    proof (cases r1)
      case (Raise e)
      with a ideps_fail[OF nd] show ?thesis by simp
    next
      case (Return u)
      with a ideps_next[OF nd, of E u s1] Cons.IH[of s1] show ?thesis by simp
    qed
  qed
qed

lemma enters_raise:
  assumes "enters E n s q sq" and "install_with_deps E q sq = (Raise e, s')"
  shows "install_with_deps E n s = (Raise e, s')"
  using assms
proof (induction rule: enters.induct)
  case (here n s)
  then show ?case .
next
  case (dep n s r pre d post s1 q sq)
  have inner: "install_with_deps E d s1 = (Raise e, s')" using dep.IH dep.prems by simp
  have nd: "d \<notin> dom (db_data s1)" using dep.hyps(5) by (simp add: domIff)
  have "install_deps E (deps r) (visit n s) = install_deps E (d # post) s1"
    using dep.hyps(3,4) by (simp add: install_deps_append del: install_deps.simps)
  also have "\<dots> = (Raise e, s')" using ideps_fail[OF nd inner] .
  finally show ?case using iwd_deps_fail[OF dep.hyps(1,2)] by simp
qed

lemma raises_in_raise:
  assumes "raises_in E q sq e s'"
  shows "install_with_deps E q sq = (Raise e, s')"
proof -
  from assms have nv: "q \<notin> visited sq" by (simp add: raises_in_def)
  show ?thesis
  proof (cases "recipes_find E q")
    case (Raise e')
    with assms iwd_notfound[OF nv Raise] show ?thesis by (simp add: raises_in_def)
  next
    case (Return r)
    obtain r2 s2 where d: "install_deps E (deps r) (visit q sq) = (r2, s2)"
      by (cases "install_deps E (deps r) (visit q sq)")
    with assms Return obtain u where r2: "r2 = Return u" and nq: "db_data s2 q = None"
      and b: "build_and_install E r s2 = (Raise e, s')"
      by (cases r2) (auto simp: raises_in_def)
    from nq have "q \<notin> dom (db_data s2)" by (simp add: domIff)
    from iwd_build[OF nv Return d[unfolded r2] this] b show ?thesis by simp
  qed
qed

section \<open>Running the concrete environment\<close>

lemmas run_simps =
  install_def recipes_find_def build_and_install_def and_then_def step_def emit_def on_fs_def
  run_cmd_def run_logged_def append_log_def log_content_def download_source_def
  apply_patches_def prepare_destdir_def strip_binaries_in_def package_destdir_def
  copy_binaries_to_bindir_def install_package_files_def new_record_def db_put_def db_save_def
  exists_def sample_env_def sample_recipe_def sample_state_def Let_def nl_def

lemmas find_simps = recipes_find_def sample_env_def sample_recipe_def sample_state_def


lemma chain_run:
  "trace (snd (install chain_env ''P'' (sample_state []))) =
     [Fetch ''D.tar.gz'', BuildCmd ''D'' ''make install'', Pack ''D'', CopyBins ''D'',
      Unpack ''D'', Unpacked ''D'', Record ''D'', Save,
      Fetch ''P.tar.gz'', BuildCmd ''P'' ''make install'', Pack ''P'', CopyBins ''P'',
      Unpack ''P'', Unpacked ''P'', Record ''P'', Save]"
  "fst (install chain_env ''P'' (sample_state [])) = Return ()"
  by (simp_all add: run_simps chain_env_def)

lemma chain_well_named: "well_named chain_env"
  by (simp add: well_named_def chain_env_def sample_env_def sample_recipe_def)

lemma siblings_run:
  "fst (install_with_deps siblings_env ''unreachable'' ((sample_state [])\<lparr>visited := {''P''}\<rparr>))
     = Raise (RuntimeError ''unreachable.tar.gz'')"
  by (simp add: run_simps siblings_env_def)

lemma deep_finds:
  "recipes_find deep_env ''P'' = Return (sample_recipe ''P'' [''Q'', ''D''])"
  "recipes_find deep_env ''Q'' = Return (sample_recipe ''Q'' [''unreachable''])"
  "recipes_find deep_env ''unreachable'' = Return (sample_recipe ''unreachable'' [])"
  by (simp_all add: find_simps deep_env_def)

lemma triangle_well_named: "well_named triangle_env"
  by (simp add: well_named_def triangle_env_def sample_env_def sample_recipe_def)

lemma triangle_run:
  "fst (install triangle_env ''A'' (sample_state [])) = Return ()"
  "trace (snd (install triangle_env ''A'' (sample_state []))) =
     [Fetch ''C.tar.gz'', BuildCmd ''C'' ''make install'', Pack ''C'', CopyBins ''C'',
      Unpack ''C'', Unpacked ''C'', Record ''C'', Save,
      Fetch ''B.tar.gz'', BuildCmd ''B'' ''make install'', Pack ''B'', CopyBins ''B'',
      Unpack ''B'', Unpacked ''B'', Record ''B'', Save,
      Fetch ''A.tar.gz'', BuildCmd ''A'' ''make install'', Pack ''A'', CopyBins ''A'',
      Unpack ''A'', Unpacked ''A'', Record ''A'', Save]"
  by (simp_all add: run_simps triangle_env_def)

section \<open>Unpacking an archive\<close>

lemma first_absolute_Some:
  "m \<in> set members \<Longrightarrow> prefix ''/'' (member_name m) \<Longrightarrow>
     \<exists>bad. first_absolute members = Some bad \<and> prefix ''/'' bad"
  by (induction members) auto

text \<open>
  Claim C1.  When the archive has a member whose name is absolute (starts with a slash),
  \<open>install_package_files\<close> raises a \<open>RuntimeError\<close> naming such a member, whatever
  the install root, and the state after the call is the state before it: \<open>extractall\<close>
  was not reached, so no file was written and no name was rewritten.
\<close>

theorem absolute_member_rejected:
  assumes "tar_open E pkgfile (fs s) = Return members"
    and "m \<in> set members" and "prefix ''/'' (member_name m)"
  shows "\<exists>bad. prefix ''/'' bad \<and>
           install_package_files E pkgfile root s = (Raise (RuntimeError bad), s)"
proof -
  obtain bad where "first_absolute members = Some bad" "prefix ''/'' bad"
    using first_absolute_Some[OF assms(2,3)] by blast
  with assms(1) show ?thesis by (auto simp: install_package_files_def)
qed

theorem absolute_member_rejected_witness:
  "prefix ''/'' ''/etc/passwd'' \<and>
   (\<exists>bad. prefix ''/'' bad \<and>
     install_package_files
       (sample_env [] [\<lparr>member_name = ''./bin/foo'', member_node = RegFile\<rparr>,
                       \<lparr>member_name = ''/etc/passwd'', member_node = RegFile\<rparr>])
       ''packages/foo-1.0.tar.gz'' ''/'' (sample_state []) =
     (Raise (RuntimeError bad), sample_state []))"
  using absolute_member_rejected [of
      "sample_env [] [\<lparr>member_name = ''./bin/foo'', member_node = RegFile\<rparr>,
                      \<lparr>member_name = ''/etc/passwd'', member_node = RegFile\<rparr>]"
      "''packages/foo-1.0.tar.gz''" "sample_state []" _
      "\<lparr>member_name = ''/etc/passwd'', member_node = RegFile\<rparr>" "''/''"]
  by (simp add: sample_env_def)

section \<open>Loading the manifest\<close>

text \<open>
  Claim C9.  When \<open>installed.json\<close> is absent, or present with a content that
  \<open>json.load\<close> rejects, \<open>DB._load\<close> returns the empty mapping and raises nothing, in
  both versions of the program: no package is then installed for that run.
\<close>

theorem db_load_absent_or_corrupt:
  assumes "f = Absent \<or> (\<exists>txt. f = Content txt \<and> json_load E txt = None)"
  shows "db_load E f = Return Map.empty \<and> db_load_v09 E f = Return Map.empty"
  using assms by (auto simp: db_load_def db_load_v09_def)

theorem db_load_absent_or_corrupt_witness:
  "db_load (sample_env [] []) (Content ''{broken'') = Return Map.empty \<and>
   db_load_v09 (sample_env [] []) (Content ''{broken'') = Return Map.empty"
  using db_load_absent_or_corrupt [of "Content ''{broken''" "sample_env [] []"]
  by (simp add: sample_env_def)

section \<open>Failures and the manifest\<close>



section \<open>Installing what is installed\<close>

lemma install_noop:
  assumes "db_data s n \<noteq> None" and f: "recipes_find E n = Return rc"
    and "\<forall>d\<in>set (deps rc). db_data s d \<noteq> None"
  shows "install E n s = (Return (), s\<lparr>visited := {n}\<rparr>)"
proof -
  let ?s0 = "s\<lparr>visited := {}\<rparr>"
  have nv: "n \<notin> visited ?s0" by simp
  have "install_deps E (deps rc) (visit n ?s0) = (Return (), visit n ?s0)"
    using assms(3) by (intro install_deps_all_present) (auto simp: visit_def)
  from iwd_already[OF nv f this] assms(1) show ?thesis
    by (auto simp: install_unfold visit_def)
qed

lemma install_twice:
  assumes wn: "well_named E" and first: "install E n s = (Return (), s1)"
  shows "install E n s1 = (Return (), s1\<lparr>visited := {n}\<rparr>)"
proof -
  let ?s0 = "s\<lparr>visited := {}\<rparr>"
  have nv: "n \<notin> visited ?s0" by simp
  from first have r: "install_with_deps E n ?s0 = (Return (), s1)" by (simp add: install_unfold)
  have rec: "n \<in> dom (db_data s1)" using install_return_recorded[OF wn r nv] .
  obtain rc where f: "recipes_find E n = Return rc"
    using iwd_notfound[OF nv] r by (cases "recipes_find E n") auto
  obtain r2 s2 where d: "install_deps E (deps rc) (visit n ?s0) = (r2, s2)"
    by (cases "install_deps E (deps rc) (visit n ?s0)")
  have r2: "r2 = Return ()" using iwd_deps_fail[OF nv f] d r by (cases r2) auto
  have mono: "dom (db_data s2) \<subseteq> dom (db_data s1)"
  proof (cases "n \<in> dom (db_data s2)")
    case True
    with iwd_already[OF nv f] d r2 r show ?thesis by simp
  next
    case False
    with iwd_build[OF nv f] d r2 r have "build_and_install E rc s2 = (Return (), s1)" by simp
    from build_grew[of s2 E rc] this show ?thesis by (auto simp: grew_def)
  qed
  have "\<forall>x\<in>set (deps rc). x \<in> dom (db_data s2) \<or> x \<in> visited (visit n ?s0)"
    using install_deps_return_recorded[OF wn] d r2 by simp
  then have "\<forall>x\<in>set (deps rc). x \<in> dom (db_data s2) \<or> x = n" by (simp add: visit_def)
  with mono rec have "\<forall>x\<in>set (deps rc). x \<in> dom (db_data s1)" by blast
  then have "\<forall>x\<in>set (deps rc). db_data s1 x \<noteq> None" by (simp add: domIff)
  moreover have "db_data s1 n \<noteq> None" using rec by (simp add: domIff)
  ultimately show ?thesis using install_noop[OF _ f, of s1] by blast
qed

text \<open>
  Claim C6, as amended.  \<open>_install_with_deps\<close> looks at the dependencies before it looks
  whether the name is installed.  When the name has a record, its recipe resolves and all
  its dependencies have records, \<open>install\<close> returns at once: no step is run and the
  manifest, the trace, the logs and the file tree are as before (only the local
  \<open>visited\<close> set holds the name).  And when the recipe files are well named, a second
  \<open>install\<close> right after one that returned normally is such a call.
\<close>

theorem install_recorded_is_noop:
  "(db_data s n \<noteq> None \<and> recipes_find E n = Return rc \<and>
      (\<forall>d\<in>set (deps rc). db_data s d \<noteq> None)
      \<longrightarrow> install E n s = (Return (), s\<lparr>visited := {n}\<rparr>)) \<and>
   (well_named E \<and> install E n s = (Return (), s1)
      \<longrightarrow> install E n s1 = (Return (), s1\<lparr>visited := {n}\<rparr>))"
  using install_noop install_twice by blast

theorem install_recorded_is_noop_witness:
  "well_named chain_env \<and>
   fst (install chain_env ''P'' (sample_state [])) = Return () \<and>
   install chain_env ''P'' (snd (install chain_env ''P'' (sample_state []))) =
     (Return (), (snd (install chain_env ''P'' (sample_state [])))\<lparr>visited := {''P''}\<rparr>)"
proof -
  let ?out = "install chain_env ''P'' (sample_state [])"
  have "?out = (Return (), snd ?out)" using chain_run(2) by (metis prod.collapse)
  with install_recorded_is_noop[of "sample_state []" "''P''" chain_env _ "snd ?out"]
    chain_well_named chain_run(2)
  show ?thesis by simp
qed

text \<open>
  Claim C6 as stated fails: \<open>P\<close> has a record, its dependency \<open>D\<close> has none, and
  \<open>install\<close> of \<open>P\<close> runs the whole pipeline of \<open>D\<close> and adds \<open>D\<close> to the manifest.
\<close>

theorem installed_package_builds_missing_dependency:
  "db_data only_P_recorded ''P'' \<noteq> None \<and> db_data only_P_recorded ''D'' = None \<and>
   trace only_P_recorded = [] \<and>
   fst (install chain_env ''P'' only_P_recorded) = Return () \<and>
   trace (snd (install chain_env ''P'' only_P_recorded)) =
     [Fetch ''D.tar.gz'', BuildCmd ''D'' ''make install'', Pack ''D'', CopyBins ''D'',
      Unpack ''D'', Unpacked ''D'', Record ''D'', Save] \<and>
   db_data (snd (install chain_env ''P'' only_P_recorded)) ''D'' \<noteq> None"
  by (simp add: run_simps chain_env_def only_P_recorded_def)

section \<open>Propagation of errors\<close>

text \<open>
  Claim C7, as amended.  No call of the recursion catches anything.  Let the call for \<open>q\<close>
  be one that \<open>install\<close> of \<open>n\<close> makes, directly or through the calls for any number of
  other packages, and let \<open>q\<close> fail itself: its recipe is not found, or its own pipeline
  raises.  Then \<open>install\<close> of \<open>n\<close> ends with that very error, in the state in which it was
  raised: every enclosing call is left at once, so the dependencies after the failing one
  and the enclosing packages themselves are not processed.
\<close>

theorem nested_failure_aborts_install:
  assumes "enters E n (s\<lparr>visited := {}\<rparr>) q sq" and "raises_in E q sq e s'"
  shows "install E n s = (Raise e, s')"
  using enters_raise[OF assms(1) raises_in_raise[OF assms(2)]] by (simp add: install_unfold)

text \<open>
  \<open>P\<close> depends on \<open>Q\<close> and \<open>D\<close>, and \<open>Q\<close> on a package whose download fails: \<open>install\<close> of
  \<open>P\<close> ends with that error, two calls below, with nothing built and nothing recorded.
\<close>

theorem nested_failure_aborts_install_witness:
  "enters deep_env ''P'' ((sample_state [])\<lparr>visited := {}\<rparr>) ''unreachable''
     ((sample_state [])\<lparr>visited := {''Q'', ''P''}\<rparr>) \<and>
   raises_in deep_env ''unreachable'' ((sample_state [])\<lparr>visited := {''Q'', ''P''}\<rparr>)
     (RuntimeError ''unreachable.tar.gz'')
     ((sample_state [])\<lparr>visited := {''unreachable'', ''Q'', ''P''},
        trace := [Fetch ''unreachable.tar.gz'']\<rparr>) \<and>
   install deep_env ''P'' (sample_state []) =
     (Raise (RuntimeError ''unreachable.tar.gz''),
      (sample_state [])\<lparr>visited := {''unreachable'', ''Q'', ''P''},
        trace := [Fetch ''unreachable.tar.gz'']\<rparr>)"
proof -
  let ?s0 = "(sample_state [])\<lparr>visited := {}\<rparr>"
  let ?s1 = "visit ''P'' ?s0"
  let ?s2 = "visit ''Q'' ?s1"
  have s2: "?s2 = (sample_state [])\<lparr>visited := {''Q'', ''P''}\<rparr>"
    by (simp add: visit_def sample_state_def)
  have e3: "enters deep_env ''unreachable'' ?s2 ''unreachable'' ?s2" by (rule enters.here)
  have e2: "enters deep_env ''Q'' ?s1 ''unreachable'' ?s2"
    by (rule enters.dep[where pre = "[]" and post = "[]", OF _ deep_finds(2) _ _ _ e3])
       (simp_all add: visit_def sample_state_def sample_recipe_def)
  have e1: "enters deep_env ''P'' ?s0 ''unreachable'' ?s2"
    by (rule enters.dep[where pre = "[]" and post = "[''D'']", OF _ deep_finds(1) _ _ _ e2])
       (simp_all add: visit_def sample_state_def sample_recipe_def)
  have r: "raises_in deep_env ''unreachable'' ((sample_state [])\<lparr>visited := {''Q'', ''P''}\<rparr>)
     (RuntimeError ''unreachable.tar.gz'')
     ((sample_state [])\<lparr>visited := {''unreachable'', ''Q'', ''P''},
        trace := [Fetch ''unreachable.tar.gz'']\<rparr>)"
    by (simp add: raises_in_def deep_finds visit_def run_simps deep_env_def)
  from nested_failure_aborts_install[OF e1[unfolded s2] r] e1[unfolded s2] r
  show ?thesis by simp
qed

text \<open>
  Claim C7 as stated fails: the download of the first dependency of \<open>P\<close> fails, which is
  neither a cycle nor a manifest error, and the whole \<open>install\<close> of \<open>P\<close> ends with
  that error; the second dependency \<open>D\<close> is not even started.
\<close>

theorem fetch_failure_aborts_everything:
  "fst (install siblings_env ''P'' (sample_state [])) = Raise (RuntimeError ''unreachable.tar.gz'') \<and>
   trace (snd (install siblings_env ''P'' (sample_state []))) = [Fetch ''unreachable.tar.gz''] \<and>
   db_data (snd (install siblings_env ''P'' (sample_state []))) ''D'' = None \<and>
   db_data (snd (install siblings_env ''P'' (sample_state []))) ''P'' = None"
  by (simp add: run_simps siblings_env_def)

section \<open>Order of dependencies\<close>

text \<open>
  Claim C5, as amended.  Let every recipe file carry the name of the package it describes,
  and let \<open>p\<close> have a recipe.  \<open>install\<close> of \<open>p\<close> first goes through the dependencies of \<open>p\<close>,
  and none of the build commands of \<open>p\<close> has run when that loop ends; they run only in
  the pipeline of \<open>p\<close>, which starts in the state the loop has left, and only when the loop
  has returned.  In that state every dependency \<open>d\<close> of \<open>p\<close> other than \<open>p\<close> itself has a
  record in the manifest, and when \<open>d\<close> had none at the start, the record was written
  during the loop and the manifest file holds the manifest with it.
\<close>

theorem dependencies_recorded_when_build_starts:
  assumes wn: "well_named E" and f: "recipes_find E p = Return rc"
  shows "\<exists>r1 s1 evs.
      install_deps E (deps rc) (s\<lparr>visited := {p}\<rparr>) = (r1, s1) \<and>
      trace s1 = trace s @ evs \<and> (\<forall>c. BuildCmd p c \<notin> set evs) \<and>
      install E p s =
        (case r1 of
           Raise e \<Rightarrow> (Raise e, s1)
         | Return u \<Rightarrow>
             if db_data s1 p \<noteq> None then (Return (), s1) else build_and_install E rc s1) \<and>
      (r1 = Return () \<longrightarrow>
         (\<forall>d\<in>set (deps rc). d \<noteq> p \<longrightarrow>
            db_data s1 d \<noteq> None \<and>
            (db_data s d = None \<longrightarrow>
               Record d \<in> set evs \<and> db_file s1 = Content (json_dump E (db_data s1)))))"
proof -
  let ?s0 = "s\<lparr>visited := {}\<rparr>"
  let ?sv = "s\<lparr>visited := {p}\<rparr>"
  have sv: "visit p ?s0 = ?sv" by (simp add: visit_def)
  have nv: "p \<notin> visited ?s0" by simp
  obtain r1 s1 where ds: "install_deps E (deps rc) ?sv = (r1, s1)"
    by (cases "install_deps E (deps rc) ?sv")
  obtain evs where g: "grew ?sv evs s1" using install_grew(2)[of ?sv E "deps rc"] ds by auto
  then have tr: "trace s1 = trace s @ evs" by (simp add: grew_def)
  have fb: "fresh_builds ?sv r1 s1"
    using install_fresh_builds(2)[OF wn, of ?sv "deps rc"] ds by simp
  have nb: "\<forall>c. BuildCmd p c \<notin> set evs"
    using fresh_builds_events[OF fb, of evs p] tr by simp
  have sa: "saved E ?sv r1 s1" using install_saved(2)[of E ?sv "deps rc"] ds by simp
  have eq: "install E p s =
        (case r1 of
           Raise e \<Rightarrow> (Raise e, s1)
         | Return u \<Rightarrow>
             if db_data s1 p \<noteq> None then (Return (), s1) else build_and_install E rc s1)"
  proof (cases r1)
    case (Raise e)
    with iwd_deps_fail[OF nv f] ds sv show ?thesis by (simp add: install_unfold)
  next
    case (Return u)
    show ?thesis
    proof (cases "p \<in> dom (db_data s1)")
      case True
      with iwd_already[OF nv f] ds sv Return show ?thesis by (auto simp: install_unfold)
    next
      case False
      with iwd_build[OF nv f] ds sv Return show ?thesis by (auto simp: install_unfold domIff)
    qed
  qed
  have rec: "db_data s1 d \<noteq> None \<and>
      (db_data s d = None \<longrightarrow>
         Record d \<in> set evs \<and> db_file s1 = Content (json_dump E (db_data s1)))"
    if r: "r1 = Return ()" and d: "d \<in> set (deps rc)" and dp: "d \<noteq> p" for d
  proof -
    have "d \<in> dom (db_data s1) \<or> d \<in> visited ?sv"
      using install_deps_return_recorded[OF wn, of "deps rc" ?sv "()" s1] ds r d by blast
    with dp have in1: "db_data s1 d \<noteq> None" by (auto simp: domIff)
    have "Record d \<in> set evs \<and> db_file s1 = Content (json_dump E (db_data s1))"
      if nd: "db_data s d = None"
    proof -
      from g have "(db_data s1 d \<noteq> None) = (db_data ?sv d \<noteq> None \<or> Record d \<in> set evs)"
        unfolding grew_def by blast
      with in1 nd have ev: "Record d \<in> set evs" by simp
      from in1 nd have "db_data s1 \<noteq> db_data ?sv" by auto
      with sa r have "db_file s1 = Content (json_dump E (db_data s1))" by (simp add: saved_def)
      with ev show ?thesis by simp
    qed
    with in1 show ?thesis by simp
  qed
  from ds tr nb eq rec show ?thesis by blast
qed

theorem dependencies_recorded_when_build_starts_witness:
  "well_named chain_env \<and>
   recipes_find chain_env ''P'' = Return (sample_recipe ''P'' [''D'']) \<and>
   ''D'' \<in> set (deps (sample_recipe ''P'' [''D''])) \<and>
   db_data (sample_state []) ''D'' = None \<and>
   fst (install_deps chain_env [''D''] ((sample_state [])\<lparr>visited := {''P''}\<rparr>)) = Return () \<and>
   db_data (snd (install_deps chain_env [''D''] ((sample_state [])\<lparr>visited := {''P''}\<rparr>))) ''D''
     \<noteq> None \<and>
   db_file (snd (install_deps chain_env [''D''] ((sample_state [])\<lparr>visited := {''P''}\<rparr>))) =
     Content (json_dump chain_env
       (db_data (snd (install_deps chain_env [''D''] ((sample_state [])\<lparr>visited := {''P''}\<rparr>)))))"
proof -
  let ?sv = "(sample_state [])\<lparr>visited := {''P''}\<rparr>"
  let ?out = "install_deps chain_env [''D''] ?sv"
  have f: "recipes_find chain_env ''P'' = Return (sample_recipe ''P'' [''D''])"
    by (simp add: find_simps chain_env_def)
  have dep: "''D'' \<in> set (deps (sample_recipe ''P'' [''D'']))"
    and ds: "deps (sample_recipe ''P'' [''D'']) = [''D'']" by (simp_all add: sample_recipe_def)
  have nd: "db_data (sample_state []) ''D'' = None" by (simp add: sample_state_def)
  have ret: "fst ?out = Return ()" by (simp add: run_simps chain_env_def)
  from dependencies_recorded_when_build_starts[OF chain_well_named f, of "sample_state []"]
  obtain r1 s1 evs where o: "?out = (r1, s1)"
    and c: "r1 = Return () \<longrightarrow>
         (\<forall>d\<in>set (deps (sample_recipe ''P'' [''D''])). d \<noteq> ''P'' \<longrightarrow>
            db_data s1 d \<noteq> None \<and>
            (db_data (sample_state []) d = None \<longrightarrow>
               Record d \<in> set evs \<and> db_file s1 = Content (json_dump chain_env (db_data s1))))"
    unfolding ds by blast
  from o ret have r1: "r1 = Return ()" and s1: "s1 = snd ?out" by simp_all
  from c r1 dep nd have "db_data s1 ''D'' \<noteq> None \<and>
      db_file s1 = Content (json_dump chain_env (db_data s1))" by auto
  with chain_well_named f dep nd ret s1 show ?thesis by simp
qed

text \<open>
  Claim C5 as stated fails in two ways.  A package \<open>P\<close> that lists itself as a dependency
  is built while it has no record, since the call for the name met again returns silently.
  And when the recipe file \<open>D\<close> holds the recipe of a package named \<open>E\<close>, the record is
  written under \<open>E\<close>: the dependency \<open>D\<close> of \<open>P\<close> has no record when the build commands of
  \<open>P\<close> run, nor afterwards.
\<close>

theorem dependency_without_record_at_build:
  "recipes_find selfdep_env ''P'' = Return (sample_recipe ''P'' [''P'']) \<and>
   ''P'' \<in> set (deps (sample_recipe ''P'' [''P''])) \<and>
   db_data (sample_state []) ''P'' = None \<and>
   trace (snd (install selfdep_env ''P'' (sample_state []))) =
     [Fetch ''P.tar.gz'', BuildCmd ''P'' ''make install'', Pack ''P'', CopyBins ''P'',
      Unpack ''P'', Unpacked ''P'', Record ''P'', Save] \<and>
   recipes_find misnamed_env ''P'' = Return (sample_recipe ''P'' [''D'']) \<and>
   ''D'' \<in> set (deps (sample_recipe ''P'' [''D''])) \<and>
   db_data (sample_state []) ''D'' = None \<and>
   fst (install misnamed_env ''P'' (sample_state [])) = Return () \<and>
   trace (snd (install misnamed_env ''P'' (sample_state []))) =
     [Fetch ''E.tar.gz'', BuildCmd ''E'' ''make install'', Pack ''E'', CopyBins ''E'',
      Unpack ''E'', Unpacked ''E'', Record ''E'', Save,
      Fetch ''P.tar.gz'', BuildCmd ''P'' ''make install'', Pack ''P'', CopyBins ''P'',
      Unpack ''P'', Unpacked ''P'', Record ''P'', Save] \<and>
   db_data (snd (install misnamed_env ''P'' (sample_state []))) ''D'' = None"
  by (simp add: run_simps selfdep_env_def misnamed_env_def)

section \<open>Dependency cycles\<close>

text \<open>
  Claim C2, as amended.  There is no cyclic-dependency error in the program: a call of
  \<open>_install_with_deps\<close> for a name that is already visited returns at once, without an
  error and without a change.  Whether or not the dependencies form a cycle, \<open>install\<close>
  raises only what the lookup of the recipe of a visited package raises, or what the
  pipeline of a visited package raises, in the state that pipeline has left.  And when
  \<open>install\<close> of \<open>n\<close> returns normally, the recipe files carrying the names of their
  packages, then \<open>n\<close> and every package reached from \<open>n\<close> along dependencies that had no
  record have one: this holds for every member of a cycle through \<open>n\<close> of which none was
  recorded.
\<close>

theorem cycle_is_no_error:
  "(\<forall>k t. k \<in> visited t \<longrightarrow> install_with_deps E k t = (Return (), t)) \<and>
   (\<forall>e s'. install E n s = (Raise e, s') \<longrightarrow>
      (\<exists>q\<in>visited s'. recipes_find E q = Raise e \<or>
         (\<exists>rc s2. recipes_find E q = Return rc \<and> build_and_install E rc s2 = (Raise e, s')))) \<and>
   (\<forall>m s'. well_named E \<and> install E n s = (Return (), s') \<and> needed E s n m \<longrightarrow>
      db_data s' m \<noteq> None)"
proof (intro conjI allI impI)
  fix k and t :: state
  assume "k \<in> visited t"
  then show "install_with_deps E k t = (Return (), t)" by (rule iwd_visited)
next
  fix e s' assume a: "install E n s = (Raise e, s')"
  let ?s0 = "s\<lparr>visited := {}\<rparr>"
  from a have "install_with_deps E n ?s0 = (Raise e, s')" by (simp add: install_unfold)
  with install_raised_by(1)[of E ?s0 n] have "raised_by E ?s0 (Raise e) s'" by simp
  then show "\<exists>q\<in>visited s'. recipes_find E q = Raise e \<or>
         (\<exists>rc s2. recipes_find E q = Return rc \<and> build_and_install E rc s2 = (Raise e, s'))"
    unfolding raised_by_def by blast
next
  fix m s' assume a: "well_named E \<and> install E n s = (Return (), s') \<and> needed E s n m"
  then have wn: "well_named E" and r: "install E n s = (Return (), s')"
    and nd: "needed E s n m" by simp_all
  let ?s0 = "s\<lparr>visited := {}\<rparr>"
  from r have run: "install_with_deps E n ?s0 = (Return (), s')" by (simp add: install_unfold)
  have "fresh_builds ?s0 (Return ()) s'"
    using install_fresh_builds(1)[OF wn, of ?s0 n] run by simp
  then have "visited s' \<subseteq> dom (db_data s')" unfolding fresh_builds_def by simp
  with needed_visited[OF wn r nd] show "db_data s' m \<noteq> None" by (auto simp: domIff)
qed

text \<open>
  \<open>A\<close> depends on \<open>B\<close>, \<open>B\<close> on \<open>C\<close> and \<open>C\<close> on \<open>A\<close>, none recorded: \<open>install\<close> of \<open>A\<close> returns
  and all three are recorded.
\<close>

theorem cycle_is_no_error_witness:
  "''A'' \<in> visited ((sample_state [])\<lparr>visited := {''A''}\<rparr>) \<and>
   install_with_deps triangle_env ''A'' ((sample_state [])\<lparr>visited := {''A''}\<rparr>) =
     (Return (), (sample_state [])\<lparr>visited := {''A''}\<rparr>) \<and>
   well_named triangle_env \<and>
   fst (install triangle_env ''A'' (sample_state [])) = Return () \<and>
   needed triangle_env (sample_state []) ''A'' ''C'' \<and>
   dep_of triangle_env ''C'' ''A'' \<and>
   db_data (snd (install triangle_env ''A'' (sample_state []))) ''C'' \<noteq> None \<and>
   db_data (snd (install triangle_env ''A'' (sample_state []))) ''B'' \<noteq> None \<and>
   db_data (snd (install triangle_env ''A'' (sample_state []))) ''A'' \<noteq> None"
proof -
  let ?s = "sample_state []"
  let ?out = "install triangle_env ''A'' ?s"
  have v: "''A'' \<in> visited (?s\<lparr>visited := {''A''}\<rparr>)" by simp
  have d: "dep_of triangle_env ''A'' ''B''" "dep_of triangle_env ''B'' ''C''"
    "dep_of triangle_env ''C'' ''A''"
    by (simp_all add: dep_of_def find_simps triangle_env_def)
  have n: "db_data ?s ''B'' = None" "db_data ?s ''C'' = None" by (simp_all add: sample_state_def)
  have nA: "needed triangle_env ?s ''A'' ''A''" by (rule needed.root)
  have nB: "needed triangle_env ?s ''A'' ''B''" by (rule needed.dep[OF nA d(1) n(1)])
  have nC: "needed triangle_env ?s ''A'' ''C''" by (rule needed.dep[OF nB d(2) n(2)])
  have run: "?out = (Return (), snd ?out)" using triangle_run(1) by (metis prod.collapse)
  note t = cycle_is_no_error[of triangle_env "''A''" ?s]
  from t v have "install_with_deps triangle_env ''A'' (?s\<lparr>visited := {''A''}\<rparr>) =
     (Return (), ?s\<lparr>visited := {''A''}\<rparr>)" by blast
  moreover from t triangle_well_named run nA nB nC
  have "db_data (snd ?out) ''A'' \<noteq> None" "db_data (snd ?out) ''B'' \<noteq> None"
    "db_data (snd ?out) ''C'' \<noteq> None" by blast+
  ultimately show ?thesis using v triangle_well_named triangle_run(1) nC d(3) by simp
qed

text \<open>
  Claim C2 as stated fails: with \<open>A\<close> depending on \<open>B\<close> and \<open>B\<close> on \<open>A\<close>, neither
  installed, \<open>install\<close> of \<open>A\<close> returns normally and both have a record afterwards.
\<close>

theorem cycle_installs_both:
  "recipes_find cycle_env ''A'' = Return (sample_recipe ''A'' [''B'']) \<and>
   recipes_find cycle_env ''B'' = Return (sample_recipe ''B'' [''A'']) \<and>
   deps (sample_recipe ''A'' [''B'']) = [''B''] \<and>
   deps (sample_recipe ''B'' [''A'']) = [''A''] \<and>
   db_data (sample_state []) ''A'' = None \<and>
   db_data (sample_state []) ''B'' = None \<and>
   fst (install cycle_env ''A'' (sample_state [])) = Return () \<and>
   db_data (snd (install cycle_env ''A'' (sample_state []))) ''A'' \<noteq> None \<and>
   db_data (snd (install cycle_env ''A'' (sample_state []))) ''B'' \<noteq> None"
  by (simp add: run_simps cycle_env_def)

section \<open>Removing files\<close>

lemmas remove_simps =
  remove_def remove_files_def remove_bin_files_def run_remove_hooks_def remove_path_def
  deepest_first_def depth_def path_join_def ALLOWED_REMOVE_PREFIXES_def unlink_def rmdir_def
  is_symlink_def is_file_def is_dir_def inside_def AList.delete_eq and_then_def db_save_def
  emit_def recipes_find_def new_record_def sample_env_def sample_recipe_def sample_state_def
  Let_def

lemma remove_path_cases:
  "fst (remove_path E root rel (t, k)) = t \<or>
   (\<exists>x. fst (remove_path E root rel (t, k)) = AList.delete x t \<and> removable t x)"
  by (auto simp: remove_path_def Let_def unlink_def rmdir_def is_symlink_def is_file_def
        is_dir_def removable_def split: prod.splits result.splits option.splits if_splits)

lemma shrinks_refl: "shrinks t t"
  by (simp add: shrinks_def)

lemma present_in_list: "map_of t q \<noteq> None \<Longrightarrow> \<exists>k. (q, k) \<in> set t"
  by (auto dest: map_of_SomeD)

lemma shrinksD1: "shrinks t0 t \<Longrightarrow> map_of t0 p = Some Special \<Longrightarrow> map_of t p = Some Special"
  unfolding shrinks_def by blast

lemma shrinksD2: "shrinks t0 t \<Longrightarrow> map_of t p \<noteq> None \<Longrightarrow> map_of t p = map_of t0 p"
  unfolding shrinks_def by blast

lemma shrinksD3:
  "shrinks t0 t \<Longrightarrow> map_of t0 p = Some Directory \<Longrightarrow> inside p q \<Longrightarrow> map_of t q \<noteq> None \<Longrightarrow>
     map_of t p = Some Directory"
  unfolding shrinks_def by blast

lemma shrinksI:
  assumes "\<And>p. map_of t0 p = Some Special \<Longrightarrow> map_of t p = Some Special"
    and "\<And>p. map_of t p \<noteq> None \<Longrightarrow> map_of t p = map_of t0 p"
    and "\<And>p q. map_of t0 p = Some Directory \<Longrightarrow> inside p q \<Longrightarrow> map_of t q \<noteq> None \<Longrightarrow>
           map_of t p = Some Directory"
  shows "shrinks t0 t"
  unfolding shrinks_def using assms by blast

lemma shrinks_delete:
  assumes sh: "shrinks t0 t" and rm: "removable t x"
  shows "shrinks t0 (AList.delete x t)"
proof (rule shrinksI)
  have m: "map_of (AList.delete x t) p = (if p = x then None else map_of t p)" for p
    by (simp add: delete_conv)
  {
    fix p assume "map_of t0 p = Some Special"
    with sh have sp: "map_of t p = Some Special" by (rule shrinksD1)
    with rm have "p \<noteq> x" by (auto simp: removable_def)
    with sp show "map_of (AList.delete x t) p = Some Special" by (simp add: m)
  next
    fix p assume q: "map_of (AList.delete x t) p \<noteq> None"
    then have px: "p \<noteq> x" by (simp add: m split: if_splits)
    with q have "map_of t p \<noteq> None" by (simp add: m)
    with sh have "map_of t p = map_of t0 p" by (rule shrinksD2)
    with px show "map_of (AList.delete x t) p = map_of t0 p" by (simp add: m)
  next
    fix p q
    assume d: "map_of t0 p = Some Directory" and i: "inside p q"
      and q: "map_of (AList.delete x t) q \<noteq> None"
    from q have qt: "map_of t q \<noteq> None" by (simp add: m split: if_splits)
    from shrinksD3[OF sh d i qt] have pt: "map_of t p = Some Directory" .
    have "p \<noteq> x"
    proof
      assume px: "p = x"
      with pt rm have ne: "\<not> list_ex (\<lambda>(q, k). inside x q) t" by (simp add: removable_def)
      obtain k where "(q, k) \<in> set t" using present_in_list[OF qt] by blast
      with i px have "list_ex (\<lambda>(q, k). inside x q) t" unfolding list_ex_iff by blast
      with ne show False by simp
    qed
    with pt show "map_of (AList.delete x t) p = Some Directory" by (simp add: m)
  }
qed

lemma remove_path_shrinks:
  "shrinks t0 t \<Longrightarrow> shrinks t0 (fst (remove_path E root rel (t, k)))"
proof -
  assume sh: "shrinks t0 t"
  from remove_path_cases[of E root rel t k] show ?thesis
  proof (elim disjE exE conjE)
    assume "fst (remove_path E root rel (t, k)) = t"
    with sh show ?thesis by simp
  next
    fix x assume "fst (remove_path E root rel (t, k)) = AList.delete x t" "removable t x"
    with shrinks_delete[OF sh] show ?thesis by simp
  qed
qed

lemma fold_remove_path_shrinks:
  "shrinks t0 (fst acc) \<Longrightarrow> shrinks t0 (fst (fold (remove_path E root) rels acc))"
proof (induction rels arbitrary: acc)
  case Nil
  then show ?case by simp
next
  case (Cons rel rels)
  obtain t k where acc: "acc = (t, k)" by (cases acc)
  with Cons.prems have "shrinks t0 (fst (remove_path E root rel acc))"
    using remove_path_shrinks by simp
  from Cons.IH[OF this] show ?case by simp
qed

lemma share_run:
  "fst (remove_files (sample_env [] []) ''/''
          [''usr/share/foo/a'', ''usr/share/foo'', ''usr/share/foo/dev''] share_tree) =
     [(''/usr'', Directory), (''/usr/share'', Directory), (''/usr/share/foo'', Directory),
      (''/usr/share/foo/b'', RegFile), (''/usr/share/foo/dev'', Special)]"
  by (simp add: remove_simps share_tree_def)

text \<open>
  Claim C10. For the paths of a package's recorded file list, \<open>remove\<close> deletes a directory only
  when it is empty and unlinks only regular files and symbolic links. One step of the loop of
  \<open>Installer.remove\<close> over the recorded files either leaves the tree as it is or deletes exactly
  one path, which at that moment is a regular file, a symbolic link or a directory with no
  entry below it. For the whole loop: a special file of the initial tree is still there
  afterwards, every path present afterwards is as it was before, and a directory below which
  something is still present afterwards is itself still present.
\<close>

theorem remove_keeps_nonempty_directories:
  "(fst (remove_path E root rel (t, k)) = t \<or>
      (\<exists>x. fst (remove_path E root rel (t, k)) = AList.delete x t \<and> removable t x)) \<and>
   (\<forall>p. map_of t p = Some Special \<longrightarrow>
        map_of (fst (remove_files E root files t)) p = Some Special) \<and>
   (\<forall>p. map_of (fst (remove_files E root files t)) p \<noteq> None \<longrightarrow>
        map_of (fst (remove_files E root files t)) p = map_of t p) \<and>
   (\<forall>p q. map_of t p = Some Directory \<and> inside p q \<and>
        map_of (fst (remove_files E root files t)) q \<noteq> None \<longrightarrow>
        map_of (fst (remove_files E root files t)) p = Some Directory)"
proof -
  have "shrinks t (fst (remove_files E root files t))"
    unfolding remove_files_def by (rule fold_remove_path_shrinks) (simp add: shrinks_refl)
  then have
    "(\<forall>p. map_of t p = Some Special \<longrightarrow>
        map_of (fst (remove_files E root files t)) p = Some Special) \<and>
     (\<forall>p. map_of (fst (remove_files E root files t)) p \<noteq> None \<longrightarrow>
        map_of (fst (remove_files E root files t)) p = map_of t p) \<and>
     (\<forall>p q. map_of t p = Some Directory \<and> inside p q \<and>
        map_of (fst (remove_files E root files t)) q \<noteq> None \<longrightarrow>
        map_of (fst (remove_files E root files t)) p = Some Directory)"
    unfolding shrinks_def .
  with remove_path_cases[of E root rel t k] show ?thesis by (rule conjI)
qed

text \<open>
  On \<open>share_tree\<close>, removing \<open>a\<close>, the directory \<open>foo\<close> and the device node \<open>dev\<close> deletes \<open>a\<close>
  only: \<open>foo\<close> still holds \<open>b\<close>, and \<open>dev\<close> is neither a regular file nor a link.
\<close>

theorem remove_keeps_nonempty_directories_witness:
  "map_of share_tree ''/usr/share/foo'' = Some Directory \<and>
   inside ''/usr/share/foo'' ''/usr/share/foo/b'' \<and>
   map_of (fst (remove_files (sample_env [] []) ''/''
      [''usr/share/foo/a'', ''usr/share/foo'', ''usr/share/foo/dev''] share_tree))
      ''/usr/share/foo/b'' \<noteq> None \<and>
   map_of (fst (remove_files (sample_env [] []) ''/''
      [''usr/share/foo/a'', ''usr/share/foo'', ''usr/share/foo/dev''] share_tree))
      ''/usr/share/foo'' = Some Directory \<and>
   map_of share_tree ''/usr/share/foo/dev'' = Some Special \<and>
   map_of (fst (remove_files (sample_env [] []) ''/''
      [''usr/share/foo/a'', ''usr/share/foo'', ''usr/share/foo/dev''] share_tree))
      ''/usr/share/foo/dev'' = Some Special \<and>
   map_of (fst (remove_files (sample_env [] []) ''/''
      [''usr/share/foo/a'', ''usr/share/foo'', ''usr/share/foo/dev''] share_tree))
      ''/usr/share/foo/a'' = None"
proof -
  let ?t' = "fst (remove_files (sample_env [] []) ''/''
      [''usr/share/foo/a'', ''usr/share/foo'', ''usr/share/foo/dev''] share_tree)"
  have d: "map_of share_tree ''/usr/share/foo'' = Some Directory"
    and sp: "map_of share_tree ''/usr/share/foo/dev'' = Some Special"
    by (simp_all add: share_tree_def)
  have i: "inside ''/usr/share/foo'' ''/usr/share/foo/b''" by (simp add: inside_def)
  have q: "map_of ?t' ''/usr/share/foo/b'' \<noteq> None" and a: "map_of ?t' ''/usr/share/foo/a'' = None"
    by (simp_all add: share_run)
  from remove_keeps_nonempty_directories[where t = share_tree and E = "sample_env [] []"
      and root = "''/''" and files = "[''usr/share/foo/a'', ''usr/share/foo'', ''usr/share/foo/dev'']"]
  have "map_of ?t' ''/usr/share/foo/dev'' = Some Special"
    and "map_of ?t' ''/usr/share/foo'' = Some Directory"
    using d sp i q by blast+
  with d sp i q a show ?thesis by simp
qed

section \<open>The allow-list of removal\<close>

text \<open>
  Claim C4. When the install root is \<open>/\<close>, \<open>remove\<close> is to delete only paths that lie under one
  of the allow-listed directories. The guard of \<open>Installer.remove\<close> compares the resolved path
  with each entry by \<open>str.startswith\<close>, so that \<open>/library/x\<close> passes for the entry \<open>/lib\<close>. For
  the package of \<open>lookalike_state\<close>, recorded with install root \<open>/\<close> and the single file
  \<open>library/x\<close>: \<open>/library/x\<close> is a regular file, it is none of the allow-listed directories and
  lies inside none of them, and \<open>remove\<close> returns normally having deleted it.
\<close>

theorem lookalike_prefix_is_deleted:
  "meta_installed_root (the (db_data lookalike_state ''pkg'')) = Some ''/'' \<and>
   meta_files (the (db_data lookalike_state ''pkg'')) = Some [''library/x''] \<and>
   map_of (fs lookalike_state) ''/library/x'' = Some RegFile \<and>
   \<not> list_ex (\<lambda>pref. ''/library/x'' = pref \<or> inside pref ''/library/x'') ALLOWED_REMOVE_PREFIXES \<and>
   fst (remove (sample_env [] []) ''pkg'' lookalike_state) = Return () \<and>
   map_of (fs (snd (remove (sample_env [] []) ''pkg'' lookalike_state))) ''/library/x'' = None"
  by (simp add: remove_simps lookalike_state_def)

section \<open>The per-package log\<close>

lemma run_logged_appends:
  "log_content (snd (run_logged E cmd cwd lf vars s)) lf =
     log_content s lf @
       (if length (nl @ ''$ '' @ cmd @ nl) < log_buffer E
        then fst (snd (sh E cmd cwd vars (fs s))) @ nl @ ''$ '' @ cmd @ nl
        else nl @ ''$ '' @ cmd @ nl @ fst (snd (sh E cmd cwd vars (fs s))))"
  by (simp add: run_logged_def Let_def append_log_def log_content_def split: prod.splits)

text \<open>
  On a log that holds \<open>previous run\<close>, the short command \<open>echo done\<close> leaves its output and
  then its command line after the previous content.
\<close>

lemma run_logged_sample:
  "log_content (snd (run_logged (sample_env [] []) ''echo done'' ''.'' ''logs/foo.log'' []
      old_log_state)) ''logs/foo.log'' =
     ''previous run'' @ ''done'' @ nl @ nl @ ''$ echo done'' @ nl"
  by (simp add: run_logged_def Let_def append_log_def log_content_def sample_env_def
        sample_state_def old_log_state_def nl_def)

lemma v09_log_reset:
  "run_build_commands_v09 E pkg bd st s =
     run_build_commands_v09 E pkg bd st
       (s\<lparr>logs := (logs s)(LOGS_DIR E @ ''/'' @ name pkg @ ''.log'' := None)\<rparr>)"
  by (simp add: run_build_commands_v09_def Let_def)

text \<open>
  Claim C8, as stated: the per-package log file is append-only across repeated runs, a later
  build never truncating what an earlier one wrote. In \<open>genpkg.py\<close>, \<open>_run_build_commands\<close>
  opens the log for writing: a build of \<open>foo\<close> over a log that holds \<open>previous run\<close> leaves the
  output of the new build only.
\<close>

theorem v09_build_truncates_log:
  "log_content old_log_state ''logs/foo.log'' = ''previous run'' \<and>
   log_content (snd (run_build_commands_v09 (sample_env [] []) (sample_recipe ''foo'' [])
      ''sources'' False old_log_state)) ''logs/foo.log'' = ''done'' @ nl \<and>
   \<not> prefix ''previous run''
      (log_content (snd (run_build_commands_v09 (sample_env [] []) (sample_recipe ''foo'' [])
         ''sources'' False old_log_state)) ''logs/foo.log'')"
  by (simp add: run_build_commands_v09_def Let_def append_log_def
        log_content_def sample_env_def sample_recipe_def sample_state_def old_log_state_def nl_def)

text \<open>
  Claim C8, amended.  In \<open>genpkg1.0.py\<close> the per-package log file is append-only: an
  installation, whether it returns or raises, leaves every log file with its previous content
  as a prefix, and \<open>run_logged\<close> appends to what the log file held the output of the command
  and its command line, the line after the output when it is shorter than the buffer of the
  file object and before it otherwise.  In \<open>genpkg.py\<close>, \<open>_run_build_commands\<close> starts the log
  of the package afresh: its result does not depend on what the log file held before.
\<close>

theorem log_appended_v10_reset_v09:
  "prefix (log_content s f) (log_content (snd (install E n s)) f) \<and>
   log_content (snd (run_logged E cmd cwd lf vars s)) lf =
     log_content s lf @
       (if length (nl @ ''$ '' @ cmd @ nl) < log_buffer E
        then fst (snd (sh E cmd cwd vars (fs s))) @ nl @ ''$ '' @ cmd @ nl
        else nl @ ''$ '' @ cmd @ nl @ fst (snd (sh E cmd cwd vars (fs s)))) \<and>
   run_build_commands_v09 E pkg bd st s =
     run_build_commands_v09 E pkg bd st
       (s\<lparr>logs := (logs s)(LOGS_DIR E @ ''/'' @ name pkg @ ''.log'' := None)\<rparr>)"
proof -
  obtain evs where "grew (s\<lparr>visited := {}\<rparr>) evs (snd (install E n s))"
    using install_grew(1)[of "s\<lparr>visited := {}\<rparr>" E n] by (auto simp: install_unfold)
  then have "prefix (log_content (s\<lparr>visited := {}\<rparr>) f) (log_content (snd (install E n s)) f)"
    unfolding grew_def by blast
  then have "prefix (log_content s f) (log_content (snd (install E n s)) f)"
    by (simp add: log_content_def)
  with run_logged_appends[of E cmd cwd lf vars s] v09_log_reset[of E pkg bd st s]
  show ?thesis by (intro conjI)
qed

end
